theory Spec2Isabelle
  imports Main "HOL-Library.Sublist"
begin

section \<open>Go strings and the library functions used by the parser and the writer\<close>

text \<open>
  A Go string is a sequence of bytes, modelled as \<^typ>\<open>string\<close> (a list of 8-bit
  characters). The functions of package \<^verbatim>\<open>strings\<close>, \<^verbatim>\<open>regexp\<close> and \<^verbatim>\<open>bufio\<close> that
  \<^verbatim>\<open>internal/ui.go\<close> calls are modelled on bytes, following the UTF-8 decoding
  these functions perform.
\<close>

abbreviation newline :: char where "newline \<equiv> CHR 0x0A"
abbreviation squote :: char where "squote \<equiv> CHR 0x27"
abbreviation dquote :: char where "dquote \<equiv> CHR 0x22"

text \<open>
  \<^verbatim>\<open>unicode.IsSpace\<close>: the code points U+0009..U+000D, U+0020, U+0085, U+00A0, U+1680,
  U+2000..U+200A, U+2028, U+2029, U+202F, U+205F and U+3000, each given by its UTF-8
  encoding.
\<close>

definition space_runes :: "string list" where
  "space_runes =
    [[CHR 0x09], [CHR 0x0A], [CHR 0x0B], [CHR 0x0C], [CHR 0x0D], [CHR 0x20],
     [CHR 0xC2, CHR 0x85], [CHR 0xC2, CHR 0xA0],
     [CHR 0xE1, CHR 0x9A, CHR 0x80],
     [CHR 0xE2, CHR 0x80, CHR 0x80], [CHR 0xE2, CHR 0x80, CHR 0x81],
     [CHR 0xE2, CHR 0x80, CHR 0x82], [CHR 0xE2, CHR 0x80, CHR 0x83],
     [CHR 0xE2, CHR 0x80, CHR 0x84], [CHR 0xE2, CHR 0x80, CHR 0x85],
     [CHR 0xE2, CHR 0x80, CHR 0x86], [CHR 0xE2, CHR 0x80, CHR 0x87],
     [CHR 0xE2, CHR 0x80, CHR 0x88], [CHR 0xE2, CHR 0x80, CHR 0x89],
     [CHR 0xE2, CHR 0x80, CHR 0x8A],
     [CHR 0xE2, CHR 0x80, CHR 0xA8], [CHR 0xE2, CHR 0x80, CHR 0xA9],
     [CHR 0xE2, CHR 0x80, CHR 0xAF],
     [CHR 0xE2, CHR 0x81, CHR 0x9F],
     [CHR 0xE3, CHR 0x80, CHR 0x80]]"

text \<open>
  \<^verbatim>\<open>strings.TrimLeftFunc\<close> decodes one rune after the other from the front and stops at
  the first rune that is not in the set; \<open>trim_runes rs\<close> removes leading encodings
  that belong to \<open>rs\<close> in the same way.
\<close>

fun trim_runes :: "string list \<Rightarrow> string \<Rightarrow> string" where
  "trim_runes rs [] = []"
| "trim_runes rs (c # cs) =
     (case find (\<lambda>r. prefix r (c # cs)) rs of
        None \<Rightarrow> c # cs
      | Some r \<Rightarrow> trim_runes rs (drop (length r - 1) cs))"

definition TrimLeftSpace :: "string \<Rightarrow> string" where
  "TrimLeftSpace s = trim_runes space_runes s"

text \<open>
  \<^verbatim>\<open>strings.TrimRightFunc\<close> decodes the last rune (\<^verbatim>\<open>utf8.DecodeLastRuneInString\<close>) and
  removes it while it is a space: the same walk on the reversed string with the
  reversed encodings.
\<close>

definition TrimRightSpace :: "string \<Rightarrow> string" where
  "TrimRightSpace s = rev (trim_runes (map rev space_runes) (rev s))"

definition TrimSpace :: "string \<Rightarrow> string" where
  "TrimSpace s = TrimRightSpace (TrimLeftSpace s)"

text \<open>\<^verbatim>\<open>strings.Trim(s, cutset)\<close> for a cutset of ASCII bytes.\<close>

definition Trim :: "string \<Rightarrow> string \<Rightarrow> string" where
  "Trim s cutset =
     dropWhile (\<lambda>c. c \<in> set cutset) (rev (dropWhile (\<lambda>c. c \<in> set cutset) (rev s)))"

definition HasPrefix :: "string \<Rightarrow> string \<Rightarrow> bool" where
  "HasPrefix s p = prefix p s"

definition TrimPrefix :: "string \<Rightarrow> string \<Rightarrow> string" where
  "TrimPrefix s p = (if HasPrefix s p then drop (length p) s else s)"

fun Contains :: "string \<Rightarrow> string \<Rightarrow> bool" where
  "Contains [] sub = (sub = [])"
| "Contains (c # cs) sub = (prefix sub (c # cs) \<or> Contains cs sub)"

text \<open>Classes of ASCII bytes.\<close>

definition is_ascii :: "char \<Rightarrow> bool" where
  "is_ascii c = ((of_char c :: nat) < 128)"

definition is_lower :: "char \<Rightarrow> bool" where
  "is_lower c = (97 \<le> (of_char c :: nat) \<and> (of_char c :: nat) \<le> 122)"

definition is_upper :: "char \<Rightarrow> bool" where
  "is_upper c = (65 \<le> (of_char c :: nat) \<and> (of_char c :: nat) \<le> 90)"

definition is_digit :: "char \<Rightarrow> bool" where
  "is_digit c = (48 \<le> (of_char c :: nat) \<and> (of_char c :: nat) \<le> 57)"

subsection \<open>Runes and upper case\<close>

text \<open>
  A rune is a code point, a natural number. \<^verbatim>\<open>utf8.DecodeRuneInString\<close> gives the rune at
  the front of a string and its width in bytes: one byte below 0x80; a leading byte
  0xC2..0xF4 with one, two or three continuation bytes in the ranges that exclude
  over-long forms, surrogates and code points beyond U+10FFFF; and \<^verbatim>\<open>RuneError\<close> of width
  1 for every other byte.
\<close>

definition RuneError :: nat where
  "RuneError = 0xFFFD"

definition DecodeRune :: "string \<Rightarrow> nat \<times> nat" where
  "DecodeRune s =
     (case map of_char (take 4 s) of
        [] \<Rightarrow> (RuneError, 0)
      | s0 # t \<Rightarrow>
          if s0 < 0x80 then (s0, 1)
          else if s0 < 0xC2 \<or> 0xF4 < s0 then (RuneError, 1)
          else
            (let sz = (if s0 < 0xE0 then 2 else if s0 < 0xF0 then 3 else 4 :: nat);
                 lo = (if s0 = 0xE0 then 0xA0 else if s0 = 0xF0 then 0x90 else 0x80 :: nat);
                 hi = (if s0 = 0xED then 0x9F else if s0 = 0xF4 then 0x8F else 0xBF :: nat)
             in if length (s0 # t) < sz then (RuneError, 1)
                else
                  (case t of
                     [] \<Rightarrow> (RuneError, 1)
                   | s1 # t1 \<Rightarrow>
                       if s1 < lo \<or> hi < s1 then (RuneError, 1)
                       else if sz \<le> 2 then ((s0 mod 32) * 64 + s1 mod 64, 2)
                       else
                         (case t1 of
                            [] \<Rightarrow> (RuneError, 1)
                          | s2 # t2 \<Rightarrow>
                              if s2 < 0x80 \<or> 0xBF < s2 then (RuneError, 1)
                              else if sz \<le> 3
                              then ((s0 mod 16) * 4096 + (s1 mod 64) * 64 + s2 mod 64, 3)
                              else
                                (case t2 of
                                   [] \<Rightarrow> (RuneError, 1)
                                 | s3 # t3 \<Rightarrow>
                                     if s3 < 0x80 \<or> 0xBF < s3 then (RuneError, 1)
                                     else ((s0 mod 8) * 262144 + (s1 mod 64) * 4096 +
                                           (s2 mod 64) * 64 + s3 mod 64, 4))))))"

text \<open>The runes of a string, as \<^verbatim>\<open>for _, c := range s\<close> visits them.\<close>

fun decode :: "string \<Rightarrow> nat list" where
  "decode [] = []"
| "decode (c # cs) =
     fst (DecodeRune (c # cs)) # decode (drop (snd (DecodeRune (c # cs)) - 1) cs)"

text \<open>
  \<^verbatim>\<open>utf8.AppendRune\<close>: the UTF-8 encoding of a rune; a surrogate or a value beyond
  U+10FFFF is written as \<^verbatim>\<open>RuneError\<close>.
\<close>

definition EncodeRune :: "nat \<Rightarrow> string" where
  "EncodeRune r =
     (if r \<le> 0x7F then [char_of r]
      else if r \<le> 0x7FF then [char_of (0xC0 + r div 64), char_of (0x80 + r mod 64)]
      else if 0x10FFFF < r \<or> (0xD800 \<le> r \<and> r \<le> 0xDFFF) then [CHR 0xEF, CHR 0xBF, CHR 0xBD]
      else if r \<le> 0xFFFF
      then [char_of (0xE0 + r div 4096), char_of (0x80 + (r div 64) mod 64),
            char_of (0x80 + r mod 64)]
      else [char_of (0xF0 + r div 262144), char_of (0x80 + (r div 4096) mod 64),
            char_of (0x80 + (r div 64) mod 64), char_of (0x80 + r mod 64)])"

text \<open>
  \<^verbatim>\<open>unicode.ToUpper\<close>: the letters a..z are mapped to A..Z, the other ASCII runes are
  kept, and a rune beyond ASCII is looked up in the case table of package \<^verbatim>\<open>unicode\<close>,
  the parameter \<open>tbl\<close>.
\<close>

definition ToUpper_rune :: "(nat \<Rightarrow> nat) \<Rightarrow> nat \<Rightarrow> nat" where
  "ToUpper_rune tbl r =
     (if r \<le> 0x7F then (if 97 \<le> r \<and> r \<le> 122 then r - 32 else r) else tbl r)"

text \<open>
  \<^verbatim>\<open>strings.ToUpper\<close> is \<^verbatim>\<open>strings.Map(unicode.ToUpper, s)\<close>, with a shortcut for ASCII
  strings that gives the same result: every rune of the string is mapped and encoded, and
  an invalid byte is written as \<^verbatim>\<open>RuneError\<close>.
\<close>

definition ToUpper_by :: "(nat \<Rightarrow> nat) \<Rightarrow> string \<Rightarrow> string" where
  "ToUpper_by tbl s = concat (map (\<lambda>c. EncodeRune (ToUpper_rune tbl c)) (decode s))"

text \<open>
  Of the case table, the two entries whose upper case is an ASCII letter: U+0131 (dotless
  i) has the upper case I and U+017F (long s) has the upper case S. The upper case of
  every other rune beyond ASCII is a rune beyond ASCII; \<open>case_table\<close> keeps such a
  rune, which changes nothing but bytes from 0x80 on in the result of \<open>ToUpper\<close>, and
  nothing in what \<open>Contains\<close> finds for an ASCII keyword (lemma
  \<open>getFieldType_any_table\<close>).
\<close>

definition case_table :: "nat \<Rightarrow> nat" where
  "case_table r = (if r = 0x131 then 0x49 else if r = 0x17F then 0x53 else r)"

definition ToUpper :: "string \<Rightarrow> string" where
  "ToUpper s = ToUpper_by case_table s"

text \<open>\<^verbatim>\<open>strings.Split(s, "\n")\<close> and \<^verbatim>\<open>strings.Join(xs, "\n")\<close>.\<close>

fun Split :: "string \<Rightarrow> string list" where
  "Split [] = [[]]"
| "Split (c # cs) =
     (if c = newline then [] # Split cs
      else (case Split cs of [] \<Rightarrow> [[c]] | l # ls \<Rightarrow> (c # l) # ls))"

fun Join :: "string list \<Rightarrow> string" where
  "Join [] = []"
| "Join [x] = x"
| "Join (x # y # ys) = x @ [newline] @ Join (y # ys)"

subsection \<open>The three regular expressions\<close>

text \<open>
  Go's \<^verbatim>\<open>\s\<close> is the ASCII class \<^verbatim>\<open>[\t\n\f\r ]\<close> (no vertical tab). The matchers below
  give the leftmost-first match of each pattern on a subject without a line feed, which
  is all the scanner ever produces.
\<close>

definition re_space :: "char \<Rightarrow> bool" where
  "re_space c = (c = CHR 0x09 \<or> c = CHR 0x0A \<or> c = CHR 0x0C \<or> c = CHR 0x0D \<or> c = CHR 0x20)"

text \<open>\<^verbatim>\<open>headerStartPattern = ^#\s*-+\s*$\<close>, \<^verbatim>\<open>MatchString\<close>.\<close>

definition headerStartPattern :: "string \<Rightarrow> bool" where
  "headerStartPattern line =
     (case line of
        [] \<Rightarrow> False
      | c # rest \<Rightarrow>
          c = CHR ''#'' \<and>
          (let r1 = dropWhile re_space rest;
               r2 = dropWhile (\<lambda>d. d = CHR ''-'') r1
           in r1 \<noteq> [] \<and> hd r1 = CHR ''-'' \<and> list_all re_space r2))"

text \<open>
  \<^verbatim>\<open>sectionPattern = ^#\s*(.+)\s*$\<close>, \<^verbatim>\<open>FindStringSubmatch\<close>: the result is the capture
  group, \<open>None\<close> for no match. The greedy \<^verbatim>\<open>\s*\<close> takes all the white space after
  the \<^verbatim>\<open>#\<close>, and gives one character back when nothing else is left for \<^verbatim>\<open>.+\<close>.
\<close>

definition sectionPattern :: "string \<Rightarrow> string option" where
  "sectionPattern line =
     (case line of
        [] \<Rightarrow> None
      | c # rest \<Rightarrow>
          if c \<noteq> CHR ''#'' \<or> rest = [] then None
          else (let body = dropWhile re_space rest
                in if body \<noteq> [] then Some body else Some [last rest]))"

text \<open>
  \<^verbatim>\<open>varPattern = ^([A-Z_][A-Z0-9_]*)=(.*)$\<close>, \<^verbatim>\<open>FindStringSubmatch\<close>: the two capture
  groups.
\<close>

definition key_char :: "char \<Rightarrow> bool" where
  "key_char c = (is_upper c \<or> is_digit c \<or> c = CHR ''_'')"

definition varPattern :: "string \<Rightarrow> (string \<times> string) option" where
  "varPattern line =
     (let key = takeWhile key_char line;
          rest = dropWhile key_char line
      in if key = [] \<or> is_digit (hd key) then None
         else (case rest of
                 [] \<Rightarrow> None
               | e # v \<Rightarrow> if e = CHR ''='' \<and> newline \<notin> set v then Some (key, v) else None))"

subsection \<open>The line scanner\<close>

text \<open>
  \<^verbatim>\<open>bufio.Scanner\<close> with the default split function \<^verbatim>\<open>ScanLines\<close>: the text is cut at
  every line feed, a final piece without line feed is a line when it is not empty, and
  one trailing carriage return is dropped from each line. The buffer grows to
  \<^verbatim>\<open>MaxScanTokenSize\<close> = 64 * 1024 bytes; a line that fills it without its line feed
  stops the scan with \<^verbatim>\<open>ErrTooLong\<close>.
\<close>

datatype error = ErrTooLong

definition MaxScanTokenSize :: nat where
  "MaxScanTokenSize = 64 * 1024"

definition dropCR :: "string \<Rightarrow> string" where
  "dropCR data = (if data \<noteq> [] \<and> last data = CHR 0x0D then butlast data else data)"

definition raw_lines :: "string \<Rightarrow> string list" where
  "raw_lines text = (let ps = Split text in if last ps = [] then butlast ps else ps)"

definition Scan :: "string \<Rightarrow> error + string list" where
  "Scan text =
     (if list_ex (\<lambda>l. MaxScanTokenSize \<le> length l) (raw_lines text) then Inl ErrTooLong
      else Inr (map dropCR (raw_lines text)))"

section \<open>The data model (package onepassword)\<close>

text \<open>A value of type \<^verbatim>\<open>interface{}\<close>: a string or anything else.\<close>

datatype iface = IString string | IOther

record OnePasswordField =
  ID :: string
  Type :: string
  Label :: string
  Value :: string
  Section :: "(string \<rightharpoonup> iface) option"

record OnePasswordItem =
  ItemID :: string
  Title :: string
  Fields :: "OnePasswordField list"
  Vault :: "(string \<rightharpoonup> iface) option"

section \<open>getFieldType\<close>

definition passwordKeywords :: "string list" where
  "passwordKeywords =
     [''PASSWORD'', ''PASS'', ''SECRET'', ''KEY'', ''TOKEN'', ''AUTH'', ''CREDENTIAL'',
      ''HASH'', ''SALT'']"

fun keyword_loop :: "string \<Rightarrow> string list \<Rightarrow> string" where
  "keyword_loop upperName [] = ''STRING''"
| "keyword_loop upperName (keyword # rest) =
     (if Contains upperName keyword then ''CONCEALED'' else keyword_loop upperName rest)"

definition getFieldType :: "string \<Rightarrow> string" where
  "getFieldType fieldName = keyword_loop (ToUpper fieldName) passwordKeywords"

section \<open>ParseEnvFileToItem\<close>

text \<open>The variables of the scanning loop, with \<^verbatim>\<open>item.Fields\<close> as \<open>itemFields\<close>.\<close>

record scan_state =
  itemFields :: "OnePasswordField list"
  currentSection :: string
  inHeader :: bool
  headerLines :: "string list"

definition init_state :: scan_state where
  "init_state = \<lparr>itemFields = [], currentSection = [], inHeader = False, headerLines = []\<rparr>"

definition new_field :: "string \<Rightarrow> string \<Rightarrow> string \<Rightarrow> OnePasswordField" where
  "new_field key val sect =
     \<lparr>ID = [], Type = getFieldType key, Label = key, Value = val,
      Section = (if sect \<noteq> [] then Some [''label'' \<mapsto> IString sect] else None)\<rparr>"

text \<open>
  One iteration of \<^verbatim>\<open>for scanner.Scan()\<close> on the text of the line, with the source's
  order of tests: blank line, header delimiter, inside the header, section marker,
  variable.
\<close>

definition scan_line :: "scan_state \<Rightarrow> string \<Rightarrow> scan_state" where
  "scan_line st text =
     (let line = TrimSpace text in
      if line = [] then st
      else if headerStartPattern line then st\<lparr>inHeader := \<not> inHeader st\<rparr>
      else if inHeader st then
        (if HasPrefix line ''#''
         then st\<lparr>headerLines := headerLines st @ [TrimPrefix (TrimSpace line) ''#'']\<rparr>
         else st)
      else
        (case (if HasPrefix line ''#'' \<and> \<not> headerStartPattern line
               then sectionPattern line else None) of
           Some cap \<Rightarrow> st\<lparr>currentSection := TrimSpace cap\<rparr>
         | None \<Rightarrow>
             (case varPattern line of
                Some (key, v) \<Rightarrow>
                  st\<lparr>itemFields :=
                       itemFields st @
                       [new_field key (Trim v [squote, dquote]) (currentSection st)]\<rparr>
              | None \<Rightarrow> st)))"

definition scan_all :: "string list \<Rightarrow> scan_state" where
  "scan_all ls = foldl scan_line init_state ls"

definition notesField :: "string list \<Rightarrow> OnePasswordField" where
  "notesField hs =
     \<lparr>ID = ''notesPlain'', Type = ''STRING'', Label = ''notesPlain'', Value = Join hs,
      Section = None\<rparr>"

definition finish :: "string \<Rightarrow> scan_state \<Rightarrow> OnePasswordItem" where
  "finish itemTitle st =
     \<lparr>ItemID = [], Title = itemTitle,
      Fields = itemFields st @ (if 0 < length (headerLines st) then [notesField (headerLines st)] else []),
      Vault = None\<rparr>"

text \<open>
  The function on the content of the file. Opening and reading the file are the
  caller's environment; the scanner's own error is the \<open>Inl\<close> branch.
\<close>

definition ParseEnvFileToItem :: "string \<Rightarrow> string \<Rightarrow> error + OnePasswordItem" where
  "ParseEnvFileToItem content itemTitle =
     (case Scan content of
        Inl e \<Rightarrow> Inl e
      | Inr ls \<Rightarrow> Inr (finish itemTitle (scan_all ls)))"

section \<open>WriteItemToEnvFile\<close>

text \<open>
  The variables of the first loop: the source's \<^verbatim>\<open>notes\<close> is \<open>notes_text\<close> here, and
  \<^verbatim>\<open>sections\<close> is the Go map from section names to fields. Creating the file is the
  caller's environment; the model gives the text that is written to it.
\<close>

record write_state =
  notes_text :: string
  sections :: "string \<rightharpoonup> OnePasswordField list"

definition sectionName :: "OnePasswordField \<Rightarrow> string" where
  "sectionName field =
     (case Section field of
        None \<Rightarrow> []
      | Some m \<Rightarrow> (case m ''label'' of Some (IString label) \<Rightarrow> label | _ \<Rightarrow> []))"

text \<open>One iteration of the first loop; \<^verbatim>\<open>append\<close> to a missing key starts from nil.\<close>

definition organize_field :: "write_state \<Rightarrow> OnePasswordField \<Rightarrow> write_state" where
  "organize_field st field =
     (if ID field = ''notesPlain'' then st\<lparr>notes_text := Value field\<rparr>
      else if Value field = [] then st
      else st\<lparr>sections := (sections st)
             (sectionName field \<mapsto>
                (case sections st (sectionName field) of None \<Rightarrow> [] | Some fs \<Rightarrow> fs) @ [field])\<rparr>)"

definition organize :: "OnePasswordItem \<Rightarrow> write_state" where
  "organize item = foldl organize_field \<lparr>notes_text = [], sections = Map.empty\<rparr> (Fields item)"

definition delimiter_line :: string where
  "delimiter_line = ''# '' @ replicate 44 (CHR ''-'')"

definition field_line :: "OnePasswordField \<Rightarrow> string" where
  "field_line field = Label field @ ''='' @ [squote] @ Value field @ [squote, newline]"

definition header_text :: "string \<Rightarrow> string" where
  "header_text ns =
     (if ns \<noteq> [] then
        delimiter_line @ [newline] @
        concat (map (\<lambda>line. if TrimSpace line \<noteq> [] then ''# '' @ line @ [newline] else [])
                  (Split ns)) @
        delimiter_line @ [newline, newline]
      else [])"

definition ungrouped_text :: "(string \<rightharpoonup> OnePasswordField list) \<Rightarrow> string" where
  "ungrouped_text m =
     (case m [] of
        Some fs \<Rightarrow> if 0 < length fs then concat (map field_line fs) @ [newline] else []
      | None \<Rightarrow> [])"

definition section_text :: "(string \<rightharpoonup> OnePasswordField list) \<Rightarrow> string \<Rightarrow> string" where
  "section_text m name =
     (if name = [] then []
      else (case m name of
              Some fs \<Rightarrow>
                if 0 < length fs
                then ''# '' @ name @ [newline] @ concat (map field_line fs) @ [newline]
                else []
            | None \<Rightarrow> []))"

text \<open>
  What the function writes when \<^verbatim>\<open>range sections\<close> visits the keys in the order \<open>ks\<close>.
\<close>

definition written :: "string list \<Rightarrow> OnePasswordItem \<Rightarrow> string" where
  "written ks item =
     (let st = organize item
      in header_text (notes_text st) @ ungrouped_text (sections st) @
         concat (map (section_text (sections st)) ks))"

text \<open>
  The Go language leaves the iteration order of a map unspecified: \<^verbatim>\<open>range\<close> visits
  every key once, in any order.
\<close>

definition range_order :: "('k \<rightharpoonup> 'v) \<Rightarrow> 'k list \<Rightarrow> bool" where
  "range_order m ks = (distinct ks \<and> set ks = dom m)"

definition WriteItemToEnvFile :: "OnePasswordItem \<Rightarrow> string \<Rightarrow> bool" where
  "WriteItemToEnvFile item out = (\<exists>ks. range_order (sections (organize item)) ks \<and> out = written ks item)"

section \<open>Auxiliary notions for the properties\<close>

subsection \<open>White space at the ends of a string\<close>

definition space_suffix :: "string \<Rightarrow> bool" where
  "space_suffix s = (\<exists>r\<in>set space_runes. suffix r s)"

definition space_prefix :: "string \<Rightarrow> bool" where
  "space_prefix s = (\<exists>r\<in>set space_runes. prefix r s)"

definition ascii_space :: "char \<Rightarrow> bool" where
  "ascii_space c = (c = CHR 0x09 \<or> c = CHR 0x0A \<or> c = CHR 0x0B \<or> c = CHR 0x0C \<or> c = CHR 0x0D \<or> c = CHR 0x20)"

subsection \<open>The keyword match of the specification\<close>

text \<open>
  The specification's notion for \<open>getFieldType\<close>, in its own words: a keyword occurs in a
  name when some substring of the name, a run of its runes, equals the keyword up to the
  case of letters. A rune and a letter are the same up to case when the rune is the
  letter, or the other case of the letter; the long s (U+017F) and the dotless i (U+0131)
  are lower-case forms of the letters S and I. No other rune beyond ASCII is a form of an
  ASCII letter: the Kelvin sign (U+212A) is an upper-case letter of its own. For an
  ASCII letter this is to have the same upper case (lemma \<open>same_letter_upper\<close>).
\<close>

definition same_letter :: "nat \<Rightarrow> char \<Rightarrow> bool" where
  "same_letter r d =
     (r = of_char d \<or>
      (is_upper d \<and> r = of_char d + 32) \<or>
      (is_lower d \<and> r + 32 = of_char d) \<or>
      ((d = CHR ''S'' \<or> d = CHR ''s'') \<and> r = 0x17F) \<or>
      ((d = CHR ''I'' \<or> d = CHR ''i'') \<and> r = 0x131))"

definition keyword_occurs :: "string \<Rightarrow> string \<Rightarrow> bool" where
  "keyword_occurs name kw =
     (\<exists>pre u post. decode name = pre @ u @ post \<and> list_all2 same_letter u kw)"

text \<open>
  What the keyword match needs of the case table of package \<^verbatim>\<open>unicode\<close>: the upper case
  of U+0131 is I, the upper case of U+017F is S, and the upper case of every other rune
  beyond ASCII is a rune beyond ASCII.
\<close>

definition upper_table :: "(nat \<Rightarrow> nat) \<Rightarrow> bool" where
  "upper_table tbl =
     (tbl 0x131 = 0x49 \<and> tbl 0x17F = 0x53 \<and>
      (\<forall>r. 0x80 \<le> r \<and> r \<noteq> 0x131 \<and> r \<noteq> 0x17F \<longrightarrow> 0x80 \<le> tbl r))"

text \<open>The bytes of a list of runes.\<close>

definition encode :: "nat list \<Rightarrow> string" where
  "encode rs = concat (map EncodeRune rs)"

subsection \<open>Invariants of the scanning loop\<close>

text \<open>
  The fields without a section come first; and keys, values, section names and header
  lines are as the regular expressions and the trimming leave them, which is what the
  writer and a second parse depend on. \<open>collected_header_lines\<close> is the value of
  \<^verbatim>\<open>headerLines\<close> when the loop ends.
\<close>

definition sect_ordered :: "OnePasswordField list \<Rightarrow> bool" where
  "sect_ordered fs =
     (\<forall>i j. i < j \<longrightarrow> j < length fs \<longrightarrow> Section (fs ! i) \<noteq> None \<longrightarrow> Section (fs ! j) \<noteq> None)"

definition sect_inv :: "scan_state \<Rightarrow> bool" where
  "sect_inv st =
     ((\<forall>f\<in>set (itemFields st). ID f = []) \<and>
      (currentSection st = [] \<longrightarrow> (\<forall>f\<in>set (itemFields st). Section f = None)) \<and>
      sect_ordered (itemFields st))"

definition collected_header_lines :: "string \<Rightarrow> string list" where
  "collected_header_lines content =
     (case Scan content of Inl e \<Rightarrow> [] | Inr ls \<Rightarrow> headerLines (scan_all ls))"

definition clean_name :: "string \<Rightarrow> bool" where
  "clean_name s = (s \<noteq> [] \<and> newline \<notin> set s \<and> \<not> space_prefix s \<and> \<not> space_suffix s)"

definition key_ok :: "string \<Rightarrow> bool" where
  "key_ok k = (k \<noteq> [] \<and> list_all key_char k \<and> \<not> is_digit (hd k))"

definition clean_value :: "string \<Rightarrow> bool" where
  "clean_value v =
     (newline \<notin> set v \<and> (v = [] \<or> (hd v \<notin> {squote, dquote} \<and> last v \<notin> {squote, dquote})))"

definition clean_field :: "OnePasswordField \<Rightarrow> bool" where
  "clean_field f =
     (\<exists>k v s. f = new_field k v s \<and> key_ok k \<and> clean_value v \<and> (s = [] \<or> clean_name s))"

definition hdr_ok :: "string \<Rightarrow> bool" where
  "hdr_ok l =
     (newline \<notin> set l \<and> \<not> headerStartPattern (CHR ''#'' # l) \<and> (l = [] \<or> \<not> space_suffix l))"

definition parse_inv :: "scan_state \<Rightarrow> bool" where
  "parse_inv st =
     ((\<forall>f\<in>set (itemFields st). clean_field f) \<and>
      (currentSection st = [] \<or> clean_name (currentSection st)) \<and>
      (\<forall>l\<in>set (headerLines st). hdr_ok l))"

definition all_dashes :: "string \<Rightarrow> bool" where
  "all_dashes s = (s \<noteq> [] \<and> list_all (\<lambda>c. c = CHR ''-'') s)"

subsection \<open>The section map of the writer\<close>

text \<open>
  The fields that reach the section map, those of one section, and the record without
  its empty values. \<open>field_tuple\<close> is the tuple of name, type, value and section by which
  two records are compared.
\<close>

definition drop_empty :: "OnePasswordItem \<Rightarrow> OnePasswordItem" where
  "drop_empty item =
     item\<lparr>Fields := filter (\<lambda>f. ID f = ''notesPlain'' \<or> Value f \<noteq> []) (Fields item)\<rparr>"

definition nonempty_buckets :: "write_state \<Rightarrow> bool" where
  "nonempty_buckets st =
     (\<forall>name fs. sections st name = Some fs \<longrightarrow>
        fs \<noteq> [] \<and> (\<forall>f\<in>set fs. Value f \<noteq> [] \<and> ID f \<noteq> ''notesPlain'' \<and> sectionName f = name))"

definition kept :: "OnePasswordField list \<Rightarrow> OnePasswordField list" where
  "kept fs = filter (\<lambda>f. ID f \<noteq> ''notesPlain'' \<and> Value f \<noteq> []) fs"

definition in_section :: "string \<Rightarrow> OnePasswordField list \<Rightarrow> OnePasswordField list" where
  "in_section name fs = filter (\<lambda>f. sectionName f = name) fs"

definition bucket :: "(string \<rightharpoonup> OnePasswordField list) \<Rightarrow> string \<Rightarrow> OnePasswordField list" where
  "bucket m name = (case m name of None \<Rightarrow> [] | Some fs \<Rightarrow> fs)"

definition sect_fields :: "(string \<rightharpoonup> OnePasswordField list) \<Rightarrow> string list \<Rightarrow> OnePasswordField list" where
  "sect_fields m ks = concat (map (\<lambda>k. if k = [] then [] else bucket m k) ks)"

definition clean_item :: "OnePasswordItem \<Rightarrow> bool" where
  "clean_item r =
     ((\<forall>f\<in>set (kept (Fields r)). clean_field f \<and> \<not> all_dashes (sectionName f)) \<and>
      (\<forall>l\<in>set (Split (notes_text (organize r))). hdr_ok l))"

definition field_tuple :: "OnePasswordField \<Rightarrow> string \<times> string \<times> string \<times> string" where
  "field_tuple f = (Label f, Type f, Value f, sectionName f)"

subsection \<open>The text that is written, as the list of its lines\<close>

definition field_ln :: "OnePasswordField \<Rightarrow> string" where
  "field_ln f = Label f @ ''='' @ [squote] @ Value f @ [squote]"

definition unlines :: "string list \<Rightarrow> string" where
  "unlines ls = concat (map (\<lambda>l. l @ [newline]) ls)"

definition header_ls :: "string \<Rightarrow> string list" where
  "header_ls ns =
     (if ns \<noteq> [] then
        [delimiter_line] @ map (\<lambda>l. ''# '' @ l) (filter (\<lambda>l. TrimSpace l \<noteq> []) (Split ns)) @
        [delimiter_line, []]
      else [])"

definition ungrouped_ls :: "(string \<rightharpoonup> OnePasswordField list) \<Rightarrow> string list" where
  "ungrouped_ls m = (if bucket m [] = [] then [] else map field_ln (bucket m []) @ [[]])"

definition section_ls :: "(string \<rightharpoonup> OnePasswordField list) \<Rightarrow> string \<Rightarrow> string list" where
  "section_ls m name =
     (if name = [] \<or> bucket m name = [] then []
      else (''# '' @ name) # map field_ln (bucket m name) @ [[]])"

definition written_ls :: "string list \<Rightarrow> OnePasswordItem \<Rightarrow> string list" where
  "written_ls ks item =
     header_ls (notes_text (organize item)) @ ungrouped_ls (sections (organize item)) @
     concat (map (section_ls (sections (organize item))) ks)"

definition line_ok :: "string \<Rightarrow> bool" where
  "line_ok l = (newline \<notin> set l \<and> dropCR l = l)"

subsection \<open>Concrete inputs and results\<close>

definition sq :: "string \<Rightarrow> string" where
  "sq v = squote # v @ [squote]"

abbreviation quote_chars :: string where "quote_chars \<equiv> [squote, dquote]"

definition plain_item :: "OnePasswordField list \<Rightarrow> OnePasswordItem" where
  "plain_item fs = \<lparr>ItemID = [], Title = ''t'', Fields = fs, Vault = None\<rparr>"

definition plain_field :: "string \<Rightarrow> string \<Rightarrow> OnePasswordField" where
  "plain_field k v = \<lparr>ID = [], Type = ''STRING'', Label = k, Value = v, Section = None\<rparr>"

definition sect_field :: "string \<Rightarrow> string \<Rightarrow> string \<Rightarrow> string \<Rightarrow> OnePasswordField" where
  "sect_field ty k v s =
     \<lparr>ID = [], Type = ty, Label = k, Value = v, Section = Some [''label'' \<mapsto> IString s]\<rparr>"

definition sample_text :: string where
  "sample_text = ''# ---\<newline># n\<newline># ---\<newline># S\<newline>A=1\<newline>''"

definition sample_item :: OnePasswordItem where
  "sample_item =
     \<lparr>ItemID = [], Title = ''t'',
      Fields = [\<lparr>ID = [], Type = ''STRING'', Label = ''A'', Value = ''1'',
                 Section = Some [''label'' \<mapsto> IString ''S'']\<rparr>,
                \<lparr>ID = ''notesPlain'', Type = ''STRING'', Label = ''notesPlain'', Value = '' n'',
                 Section = None\<rparr>],
      Vault = None\<rparr>"

definition sample_text2 :: string where
  "sample_text2 = ''A=1\<newline># S\<newline>B=2\<newline>''"

definition sample_item2 :: OnePasswordItem where
  "sample_item2 =
     \<lparr>ItemID = [], Title = ''t'',
      Fields = [\<lparr>ID = [], Type = ''STRING'', Label = ''A'', Value = ''1'', Section = None\<rparr>,
                \<lparr>ID = [], Type = ''STRING'', Label = ''B'', Value = ''2'',
                 Section = Some [''label'' \<mapsto> IString ''S'']\<rparr>],
      Vault = None\<rparr>"

definition item_with_empty :: OnePasswordItem where
  "item_with_empty =
     \<lparr>ItemID = [], Title = ''t'',
      Fields = [\<lparr>ID = [], Type = ''STRING'', Label = ''A'', Value = ''1'', Section = None\<rparr>,
                \<lparr>ID = [], Type = ''STRING'', Label = ''B'', Value = [], Section = None\<rparr>,
                \<lparr>ID = [], Type = ''STRING'', Label = ''C'', Value = [],
                 Section = Some [''label'' \<mapsto> IString ''S'']\<rparr>],
      Vault = None\<rparr>"

definition header_sample :: string where
  "header_sample = ''# ---\<newline># X\<newline># ---\<newline>''"

definition header_item :: "string \<Rightarrow> OnePasswordItem" where
  "header_item v =
     \<lparr>ItemID = [], Title = ''t'',
      Fields = [\<lparr>ID = ''notesPlain'', Type = ''STRING'', Label = ''notesPlain'', Value = v,
                 Section = None\<rparr>],
      Vault = None\<rparr>"

definition item_email_redis :: OnePasswordItem where
  "item_email_redis =
     \<lparr>ItemID = [], Title = ''t'',
      Fields = [\<lparr>ID = [], Type = ''STRING'', Label = ''SMTP_HOST'', Value = ''smtp.gmail.com'',
                 Section = Some [''label'' \<mapsto> IString ''Email Settings'']\<rparr>,
                \<lparr>ID = [], Type = ''STRING'', Label = ''REDIS_HOST'', Value = ''localhost'',
                 Section = Some [''label'' \<mapsto> IString ''Redis Configuration'']\<rparr>],
      Vault = None\<rparr>"

definition rt_text :: string where
  "rt_text = ''# ---\<newline># n\<newline># ---\<newline>A=\<newline>B=x\<newline># S\<newline>C_KEY=\"y\"\<newline>''"

definition rt_item :: OnePasswordItem where
  "rt_item =
     plain_item [plain_field ''A'' [], plain_field ''B'' ''x'',
                 sect_field ''CONCEALED'' ''C_KEY'' ''y'' ''S'', notesField ['' n'']]"

definition rt_out :: string where
  "rt_out =
     ''# --------------------------------------------\<newline>#  n\<newline># --------------------------------------------\<newline>\<newline>'' @
     ''B='' @ sq ''x'' @ ''\<newline>\<newline># S\<newline>C_KEY='' @ sq ''y'' @ ''\<newline>\<newline>''"

definition rs_out :: string where
  "rs_out = ''A='' @ sq ''1'' @ ''\<newline>\<newline># S\<newline>B='' @ sq ''2'' @ ''\<newline>\<newline>''"

section \<open>Properties\<close>

subsection \<open>Runes of ASCII strings\<close>

lemma DecodeRune_ascii: "is_ascii c \<Longrightarrow> DecodeRune (c # cs) = (of_char c, 1)"
  by (simp add: DecodeRune_def is_ascii_def)

lemma decode_ascii_Cons: "is_ascii c \<Longrightarrow> decode (c # cs) = of_char c # decode cs"
  by (simp add: DecodeRune_ascii)

declare decode.simps(2) [simp del]

lemma EncodeRune_ascii: "r \<le> 0x7F \<Longrightarrow> EncodeRune r = [char_of r]"
  by (simp add: EncodeRune_def)

lemma ToUpper_Nil: "ToUpper [] = []"
  by (simp add: ToUpper_def ToUpper_by_def)

lemma ToUpper_ascii_Cons:
  assumes "is_ascii c"
  shows "ToUpper (c # cs) =
           (if is_lower c then char_of ((of_char c :: nat) - 32) else c) # ToUpper cs"
proof -
  from assms have le: "(of_char c :: nat) \<le> 0x7F" by (simp add: is_ascii_def)
  then have "ToUpper_rune case_table (of_char c) \<le> 0x7F"
    unfolding ToUpper_rune_def by (simp split: if_splits) arith
  then have "EncodeRune (ToUpper_rune case_table (of_char c)) =
               [char_of (ToUpper_rune case_table (of_char c))]"
    by (rule EncodeRune_ascii)
  moreover have "char_of (ToUpper_rune case_table (of_char c)) =
                   (if is_lower c then char_of ((of_char c :: nat) - 32) else c)"
    using le by (simp add: ToUpper_rune_def is_lower_def)
  ultimately show ?thesis
    using assms by (simp add: ToUpper_def ToUpper_by_def decode_ascii_Cons)
qed

subsection \<open>Evaluation of concrete inputs\<close>

lemmas go_string_defs =
  TrimSpace_def TrimLeftSpace_def TrimRightSpace_def space_runes_def Trim_def HasPrefix_def
  TrimPrefix_def ToUpper_Nil ToUpper_ascii_Cons is_ascii_def is_lower_def is_upper_def is_digit_def
  re_space_def headerStartPattern_def sectionPattern_def key_char_def varPattern_def
  dropCR_def raw_lines_def Scan_def MaxScanTokenSize_def

lemmas parse_defs =
  ParseEnvFileToItem_def scan_all_def scan_line_def init_state_def new_field_def
  getFieldType_def passwordKeywords_def notesField_def finish_def

lemmas write_defs =
  organize_def organize_field_def sectionName_def written_def header_text_def
  ungrouped_text_def section_text_def field_line_def delimiter_line_def

lemma delimiter_line_eval: "delimiter_line = ''# --------------------------------------------''"
  by (simp add: delimiter_line_def eval_nat_numeral)

subsection \<open>Trimming\<close>

lemma space_runes_nonempty: "r \<in> set space_runes \<Longrightarrow> r \<noteq> []"
  by (auto simp: space_runes_def)

lemma find_prefix_Some:
  "find (\<lambda>r. prefix r s) rs = Some r \<Longrightarrow> r \<in> set rs \<and> prefix r s"
  by (induction rs) (auto split: if_splits)

lemma trim_runes_suffix: "suffix (trim_runes rs s) s"
proof (induction rs s rule: trim_runes.induct)
  case (1 rs)
  then show ?case by simp
next
  case (2 rs c cs)
  show ?case
  proof (cases "find (\<lambda>r. prefix r (c # cs)) rs")
    case None
    then show ?thesis by simp
  next
    case (Some r)
    with 2 have "suffix (trim_runes rs (drop (length r - 1) cs)) (drop (length r - 1) cs)"
      by simp
    moreover have "suffix (drop (length r - 1) cs) (c # cs)"
      by (simp add: suffix_ConsI suffix_drop)
    ultimately show ?thesis using Some by (auto intro: suffix_order.trans)
  qed
qed

lemma trim_runes_no_prefix:
  "r \<in> set rs \<Longrightarrow> r \<noteq> [] \<Longrightarrow> \<not> prefix r (trim_runes rs s)"
proof (induction rs s rule: trim_runes.induct)
  case (1 rs)
  then show ?case by simp
next
  case (2 rs c cs)
  show ?case
  proof (cases "find (\<lambda>r. prefix r (c # cs)) rs")
    case None
    then have "\<not> prefix r (c # cs)" using 2(2) by (auto simp: find_None_iff)
    with None show ?thesis by simp
  next
    case (Some r')
    with 2 show ?thesis by simp
  qed
qed

lemma trim_runes_id:
  "\<forall>r\<in>set rs. \<not> prefix r s \<Longrightarrow> trim_runes rs s = s"
  by (cases s) (auto simp: find_None_iff[THEN iffD2] split: option.splits dest: find_prefix_Some)

lemma trim_runes_Nil_suffix:
  "trim_runes rs s = [] \<Longrightarrow> s \<noteq> [] \<Longrightarrow> \<forall>r\<in>set rs. r \<noteq> [] \<Longrightarrow> \<exists>r\<in>set rs. suffix r s"
proof (induction rs s rule: trim_runes.induct)
  case (1 rs)
  then show ?case by simp
next
  case (2 rs c cs)
  show ?case
  proof (cases "find (\<lambda>r. prefix r (c # cs)) rs")
    case None
    with 2(2) show ?thesis by simp
  next
    case (Some r)
    then have r: "r \<in> set rs" "prefix r (c # cs)" by (auto dest: find_prefix_Some)
    with 2(4) have rne: "r \<noteq> []" by auto
    have dr: "drop (length r - 1) cs = drop (length r) (c # cs)"
      using rne by (cases r) auto
    have tr: "trim_runes rs (drop (length r - 1) cs) = []" using 2(2) Some by simp
    show ?thesis
    proof (cases "drop (length r - 1) cs = []")
      case True
      with dr r(2) have "c # cs = r"
        by (metis append_Nil2 append_take_drop_id prefix_def append_eq_conv_conj)
      with r(1) show ?thesis by auto
    next
      case False
      from 2(1)[OF Some tr False 2(4)] obtain r' where "r' \<in> set rs" "suffix r' (drop (length r - 1) cs)"
        by auto
      moreover have "suffix (drop (length r - 1) cs) (c # cs)"
        by (simp add: suffix_ConsI suffix_drop)
      ultimately show ?thesis by (auto intro: suffix_order.trans)
    qed
  qed
qed

lemma TrimRightSpace_no_suffix: "\<not> space_suffix (TrimRightSpace s)"
proof
  assume "space_suffix (TrimRightSpace s)"
  then obtain r where r: "r \<in> set space_runes" "suffix r (TrimRightSpace s)"
    by (auto simp: space_suffix_def)
  then have "prefix (rev r) (trim_runes (map rev space_runes) (rev s))"
    by (simp add: TrimRightSpace_def suffix_to_prefix)
  moreover have "rev r \<in> set (map rev space_runes)" "rev r \<noteq> []"
    using r(1) space_runes_nonempty by auto
  ultimately show False using trim_runes_no_prefix by blast
qed

lemma TrimLeftSpace_no_prefix: "\<not> space_prefix (TrimLeftSpace s)"
  using trim_runes_no_prefix space_runes_nonempty
  by (auto simp: space_prefix_def TrimLeftSpace_def)

lemma TrimRightSpace_prefix: "prefix (TrimRightSpace s) s"
  using trim_runes_suffix[of "map rev space_runes" "rev s"]
  by (simp add: TrimRightSpace_def suffix_to_prefix)

lemma TrimLeftSpace_suffix: "suffix (TrimLeftSpace s) s"
  by (simp add: TrimLeftSpace_def trim_runes_suffix)

lemma TrimRightSpace_id: "\<not> space_suffix s \<Longrightarrow> TrimRightSpace s = s"
proof -
  assume a: "\<not> space_suffix s"
  have "\<forall>r\<in>set (map rev space_runes). \<not> prefix r (rev s)"
  proof
    fix r assume "r \<in> set (map rev space_runes)"
    then obtain r' where "r' \<in> set space_runes" "r = rev r'" by auto
    with a show "\<not> prefix r (rev s)" by (auto simp: space_suffix_def suffix_to_prefix)
  qed
  then show ?thesis by (simp add: TrimRightSpace_def trim_runes_id)
qed

lemma TrimLeftSpace_id: "\<not> space_prefix s \<Longrightarrow> TrimLeftSpace s = s"
  by (simp add: TrimLeftSpace_def trim_runes_id space_prefix_def)

lemma TrimSpace_no_suffix: "\<not> space_suffix (TrimSpace s)"
  by (simp add: TrimSpace_def TrimRightSpace_no_suffix)

lemma space_suffix_mono: "suffix a b \<Longrightarrow> space_suffix a \<Longrightarrow> space_suffix b"
  by (auto simp: space_suffix_def intro: suffix_order.trans)

lemma TrimSpace_nonempty_suffix:
  assumes "suffix cap line" "cap \<noteq> []" "\<not> space_suffix line"
  shows "TrimSpace cap = TrimLeftSpace cap \<and> TrimSpace cap \<noteq> []"
proof -
  have ns: "\<not> space_suffix cap" using assms space_suffix_mono by blast
  have "TrimLeftSpace cap \<noteq> []"
  proof
    assume "TrimLeftSpace cap = []"
    then have "\<exists>r\<in>set space_runes. suffix r cap"
      using trim_runes_Nil_suffix[of space_runes cap] assms(2) space_runes_nonempty
      by (auto simp: TrimLeftSpace_def)
    with ns show False by (simp add: space_suffix_def)
  qed
  moreover have "\<not> space_suffix (TrimLeftSpace cap)"
    using ns TrimLeftSpace_suffix space_suffix_mono by blast
  ultimately show ?thesis by (simp add: TrimSpace_def TrimRightSpace_id)
qed

lemma space_rune_shape:
  assumes "r \<in> set space_runes"
  shows "(\<exists>c. r = [c] \<and> ascii_space c) \<or> (2 \<le> length r \<and> (\<forall>c\<in>set r. \<not> is_ascii c))"
proof -
  have "list_all (\<lambda>r. (length r = 1 \<and> ascii_space (hd r)) \<or>
                      (2 \<le> length r \<and> list_all (\<lambda>c. \<not> is_ascii c) r)) space_runes"
    by (simp add: space_runes_def ascii_space_def is_ascii_def)
  with assms have "(length r = 1 \<and> ascii_space (hd r)) \<or>
                      (2 \<le> length r \<and> list_all (\<lambda>c. \<not> is_ascii c) r)"
    by (simp add: list_all_iff)
  then show ?thesis
  proof
    assume a: "length r = 1 \<and> ascii_space (hd r)"
    then obtain c where "r = [c]" by (cases r) auto
    with a show ?thesis by simp
  next
    assume "2 \<le> length r \<and> list_all (\<lambda>c. \<not> is_ascii c) r"
    then show ?thesis by (simp add: list_all_iff)
  qed
qed

lemma ascii_space_rune: "ascii_space c \<Longrightarrow> [c] \<in> set space_runes"
  by (auto simp: ascii_space_def space_runes_def)

lemma re_space_ascii_space: "re_space c \<Longrightarrow> ascii_space c"
  by (auto simp: re_space_def ascii_space_def)

lemma space_prefix_Cons:
  assumes "is_ascii c"
  shows "space_prefix (c # s) \<longleftrightarrow> ascii_space c"
proof
  assume "space_prefix (c # s)"
  then obtain r where r: "r \<in> set space_runes" "prefix r (c # s)" by (auto simp: space_prefix_def)
  from space_rune_shape[OF r(1)] show "ascii_space c"
  proof
    assume "\<exists>d. r = [d] \<and> ascii_space d"
    with r(2) show ?thesis by auto
  next
    assume a: "2 \<le> length r \<and> (\<forall>d\<in>set r. \<not> is_ascii d)"
    then obtain d ds where "r = d # ds" by (cases r) auto
    with r(2) a assms show ?thesis by auto
  qed
next
  assume "ascii_space c"
  then have "[c] \<in> set space_runes" by (rule ascii_space_rune)
  moreover have "prefix [c] (c # s)" by simp
  ultimately show "space_prefix (c # s)" unfolding space_prefix_def by blast
qed

lemma space_suffix_snoc:
  assumes "is_ascii c"
  shows "space_suffix (s @ [c]) \<longleftrightarrow> ascii_space c"
proof
  assume "space_suffix (s @ [c])"
  then obtain r where r: "r \<in> set space_runes" "suffix r (s @ [c])" by (auto simp: space_suffix_def)
  from space_rune_shape[OF r(1)] show "ascii_space c"
  proof
    assume "\<exists>d. r = [d] \<and> ascii_space d"
    with r(2) show ?thesis by (auto simp: suffix_def)
  next
    assume a: "2 \<le> length r \<and> (\<forall>d\<in>set r. \<not> is_ascii d)"
    then have "r \<noteq> []" by auto
    with r(2) have "last r = c" by (metis last_snoc suffix_def last_appendR)
    with a \<open>r \<noteq> []\<close> assms show ?thesis using last_in_set by blast
  qed
next
  assume "ascii_space c"
  then have "[c] \<in> set space_runes" by (rule ascii_space_rune)
  moreover have "suffix [c] (s @ [c])" by (simp add: suffix_def)
  ultimately show "space_suffix (s @ [c])" unfolding space_suffix_def by blast
qed

lemma space_suffix_append_ascii:
  assumes "list_all is_ascii p" "s \<noteq> []" "\<not> space_suffix s"
  shows "\<not> space_suffix (p @ s)"
proof
  assume "space_suffix (p @ s)"
  then obtain r where r: "r \<in> set space_runes" "suffix r (p @ s)" by (auto simp: space_suffix_def)
  from r(2) obtain q where q: "p @ s = q @ r" by (auto simp: suffix_def)
  then consider u where "p = q @ u" "u @ s = r" | u where "p @ u = q" "s = u @ r"
    by (auto simp: append_eq_append_conv2)
  then show False
  proof cases
    case 1
    show False
    proof (cases "u = []")
      case True
      with 1 have "suffix r s" by simp
      with r(1) assms(3) show False by (auto simp: space_suffix_def)
    next
      case False
      with 1(2) assms(2) have "2 \<le> length r" by (cases u; cases s) auto
      with space_rune_shape[OF r(1)] have na: "\<forall>c\<in>set r. \<not> is_ascii c" by auto
      from False obtain c where c: "c \<in> set u" by (cases u) auto
      with 1(1) assms(1) have "is_ascii c" by (auto simp: list_all_iff)
      moreover from c 1(2) have "c \<in> set r" by auto
      ultimately show False using na by blast
    qed
  next
    case 2
    then have "suffix r s" by (simp add: suffix_def)
    with r(1) assms(3) show False by (auto simp: space_suffix_def)
  qed
qed

lemma TrimSpace_no_prefix: "\<not> space_prefix (TrimSpace s)"
proof
  assume "space_prefix (TrimSpace s)"
  then obtain r where "r \<in> set space_runes" "prefix r (TrimRightSpace (TrimLeftSpace s))"
    by (auto simp: space_prefix_def TrimSpace_def)
  then have "space_prefix (TrimLeftSpace s)"
    using TrimRightSpace_prefix[of "TrimLeftSpace s"] unfolding space_prefix_def
    by (meson prefix_order.trans)
  then show False using TrimLeftSpace_no_prefix by blast
qed

lemma TrimSpace_id: "\<not> space_prefix s \<Longrightarrow> \<not> space_suffix s \<Longrightarrow> TrimSpace s = s"
  by (simp add: TrimSpace_def TrimLeftSpace_id TrimRightSpace_id)

lemma TrimSpace_idem: "TrimSpace (TrimSpace s) = TrimSpace s"
  by (simp add: TrimSpace_id TrimSpace_no_prefix TrimSpace_no_suffix)

lemma set_TrimSpace: "set (TrimSpace s) \<subseteq> set s"
proof -
  have "set (TrimRightSpace (TrimLeftSpace s)) \<subseteq> set (TrimLeftSpace s)"
    using TrimRightSpace_prefix by (rule set_mono_prefix)
  moreover have "set (TrimLeftSpace s) \<subseteq> set s"
    using TrimLeftSpace_suffix by (rule set_mono_suffix)
  ultimately show ?thesis by (auto simp: TrimSpace_def)
qed

lemma last_not_CR: "s \<noteq> [] \<Longrightarrow> \<not> space_suffix s \<Longrightarrow> last s \<noteq> CHR 0x0D"
proof
  assume s: "s \<noteq> []" "\<not> space_suffix s" "last s = CHR 0x0D"
  have "[CHR 0x0D] \<in> set space_runes" by (simp add: space_runes_def)
  moreover have "suffix [CHR 0x0D] s" using s(1,3) by (metis append_butlast_last_id suffixI)
  ultimately show False using s(2) unfolding space_suffix_def by blast
qed

lemma TrimSpace_comment:
  assumes "n \<noteq> []" "\<not> space_suffix n"
  shows "TrimSpace (''# '' @ n) = ''# '' @ n"
proof -
  have "\<not> space_prefix (''# '' @ n)"
    using space_prefix_Cons[of "CHR ''#''"] by (simp add: is_ascii_def ascii_space_def)
  moreover have "\<not> space_suffix (''# '' @ n)"
    using assms by (intro space_suffix_append_ascii) (simp_all add: is_ascii_def)
  ultimately show ?thesis by (rule TrimSpace_id)
qed

lemma set_Trim: "set (Trim v cs) \<subseteq> set v"
proof -
  have "set (Trim v cs) \<subseteq> set (rev (dropWhile (\<lambda>c. c \<in> set cs) (rev v)))"
    unfolding Trim_def by (meson set_dropWhileD subsetI)
  also have "\<dots> \<subseteq> set v"
    using set_dropWhileD by fastforce
  finally show ?thesis .
qed

lemma Trim_spec:
  "\<exists>a b. v = a @ Trim v cs @ b \<and> set a \<subseteq> set cs \<and> set b \<subseteq> set cs \<and>
         (Trim v cs = [] \<or> (hd (Trim v cs) \<notin> set cs \<and> last (Trim v cs) \<notin> set cs))"
proof -
  let ?P = "\<lambda>c. c \<in> set cs"
  let ?w = "rev (dropWhile ?P (rev v))"
  let ?b = "rev (takeWhile ?P (rev v))"
  let ?a = "takeWhile ?P ?w"
  have v: "v = ?w @ ?b"
    by (metis rev_append rev_rev_ident takeWhile_dropWhile_id)
  have w: "?w = ?a @ Trim v cs"
    by (simp add: Trim_def)
  have sb: "set ?b \<subseteq> set cs" using set_takeWhileD by fastforce
  have sa: "set ?a \<subseteq> set cs" using set_takeWhileD by fastforce
  have ends: "hd (Trim v cs) \<notin> set cs \<and> last (Trim v cs) \<notin> set cs" if ne: "Trim v cs \<noteq> []"
  proof -
    have "hd (Trim v cs) \<notin> set cs"
      using ne unfolding Trim_def by (rule hd_dropWhile)
    moreover have wne: "?w \<noteq> []"
      using ne unfolding Trim_def by (metis dropWhile.simps(1))
    have "last (Trim v cs) = last ?w" using ne w by (metis last_appendR)
    moreover have "last ?w = hd (dropWhile ?P (rev v))"
      using wne by (simp add: last_rev)
    moreover have d: "dropWhile ?P (rev v) \<noteq> []" using wne by simp
    have "hd (dropWhile ?P (rev v)) \<notin> set cs"
      using hd_dropWhile[OF d] .
    ultimately show ?thesis by simp
  qed
  have "v = ?a @ Trim v cs @ ?b" using v w by (metis append.assoc)
  with sa sb ends show ?thesis by blast
qed

lemma Trim_quoted:
  assumes "clean_value v"
  shows "Trim (squote # v @ [squote]) [squote, dquote] = v"
proof (cases "v = []")
  case True
  then show ?thesis by (simp add: Trim_def)
next
  case False
  with assms have e: "hd v \<notin> {squote, dquote}" "last v \<notin> {squote, dquote}"
    by (auto simp: clean_value_def)
  let ?P = "\<lambda>c. c \<in> set [squote, dquote]"
  have "rev (squote # v @ [squote]) = squote # rev v @ [squote]" by simp
  moreover have "dropWhile ?P (squote # rev v @ [squote]) = rev v @ [squote]"
  proof -
    obtain a as where r: "rev v = a # as" using False by (cases "rev v") auto
    have "hd (rev v) = last v" using False by (simp add: hd_rev)
    with r have "a = last v" by simp
    with e(2) have "dropWhile ?P ((a # as) @ [squote]) = (a # as) @ [squote]" by simp
    then show ?thesis unfolding r by simp
  qed
  moreover have "dropWhile ?P (rev (rev v @ [squote])) = v"
    using e(1) False by (cases v) auto
  ultimately show ?thesis unfolding Trim_def by simp
qed

lemma clean_value_Trim:
  assumes "newline \<notin> set v"
  shows "clean_value (Trim v [squote, dquote])"
proof -
  from Trim_spec[of v "[squote, dquote]"]
  have "Trim v [squote, dquote] = [] \<or>
        (hd (Trim v [squote, dquote]) \<notin> {squote, dquote} \<and> last (Trim v [squote, dquote]) \<notin> {squote, dquote})"
    by auto
  moreover have "newline \<notin> set (Trim v [squote, dquote])"
    using assms set_Trim by blast
  ultimately show ?thesis unfolding clean_value_def by blast
qed

subsection \<open>The regular expressions\<close>

lemma sectionPattern_Some:
  assumes "sectionPattern line = Some cap"
  shows "cap \<noteq> [] \<and> suffix cap line"
proof -
  from assms obtain rest where l: "line = CHR ''#'' # rest" "rest \<noteq> []"
    by (auto simp: sectionPattern_def split: list.splits if_splits)
  show ?thesis
  proof (cases "dropWhile re_space rest = []")
    case True
    with assms l have "cap = [last rest]" by (simp add: sectionPattern_def)
    moreover have "suffix [last rest] rest"
      using l(2) by (metis append_butlast_last_id suffixI)
    ultimately show ?thesis using l by (simp add: suffix_ConsI)
  next
    case False
    with assms l have "cap = dropWhile re_space rest" by (simp add: sectionPattern_def)
    then show ?thesis using False l by (simp add: suffix_ConsI suffix_dropWhile)
  qed
qed

lemma section_name_nonempty:
  "sectionPattern (TrimSpace ln) = Some cap \<Longrightarrow> TrimSpace cap \<noteq> []"
  using sectionPattern_Some TrimSpace_nonempty_suffix TrimSpace_no_suffix by blast

lemma clean_section_name:
  assumes "sectionPattern (TrimSpace ln) = Some cap" "newline \<notin> set ln"
  shows "clean_name (TrimSpace cap)"
proof -
  from sectionPattern_Some[OF assms(1)] have c: "cap \<noteq> []" "suffix cap (TrimSpace ln)" by auto
  have "set cap \<subseteq> set (TrimSpace ln)" using c(2) by (rule set_mono_suffix)
  with set_TrimSpace[of ln] set_TrimSpace[of cap] assms(2) have "newline \<notin> set (TrimSpace cap)"
    by blast
  then show ?thesis
    unfolding clean_name_def
    using section_name_nonempty[OF assms(1)] TrimSpace_no_prefix TrimSpace_no_suffix by blast
qed

lemma varPattern_Some:
  assumes "varPattern line = Some (key, v)"
  shows "line = key @ CHR ''='' # v \<and> key \<noteq> [] \<and> list_all key_char key \<and>
         \<not> is_digit (hd key) \<and> newline \<notin> set v"
proof -
  let ?k = "takeWhile key_char line"
  let ?r = "dropWhile key_char line"
  from assms have k: "?k \<noteq> []" "\<not> is_digit (hd ?k)"
    by (auto simp: varPattern_def Let_def split: if_splits)
  with assms obtain e w where r: "?r = e # w"
    by (cases ?r) (auto simp: varPattern_def Let_def)
  with assms k have e: "e = CHR ''=''" "newline \<notin> set w" "key = ?k" "v = w"
    by (auto simp: varPattern_def Let_def split: if_splits)
  have "line = ?k @ ?r" by simp
  with r e have "line = key @ CHR ''='' # v" by simp
  moreover have "list_all key_char key" using e(3) by (simp add: list_all_iff) (meson set_takeWhileD)
  ultimately show ?thesis using k e by simp
qed

lemma key_char_not_hash: "key_char c \<Longrightarrow> c \<noteq> CHR ''#''"
  by (auto simp: key_char_def is_upper_def is_digit_def)

lemma key_char_ascii: "key_char c \<Longrightarrow> is_ascii c \<and> \<not> ascii_space c \<and> c \<noteq> CHR ''=''"
  by (auto simp: key_char_def is_upper_def is_digit_def is_ascii_def ascii_space_def)

lemma key_char_not_newline: "key_char c \<Longrightarrow> c \<noteq> newline"
  by (auto simp: key_char_def is_upper_def is_digit_def)

lemma varPattern_not_comment:
  assumes "varPattern line = Some (key, v)"
  shows "line \<noteq> [] \<and> \<not> HasPrefix line ''#'' \<and> \<not> headerStartPattern line"
proof -
  from varPattern_Some[OF assms] obtain c k where "line = (c # k) @ CHR ''='' # v" "key_char c"
    by (cases key) auto
  then show ?thesis using key_char_not_hash
    by (auto simp: HasPrefix_def headerStartPattern_def)
qed

lemma varPattern_field_ln:
  assumes "key_ok k" "newline \<notin> set rest"
  shows "varPattern (k @ CHR ''='' # rest) = Some (k, rest)"
proof -
  from assms(1) have kc: "\<And>x. x \<in> set k \<Longrightarrow> key_char x" and kn: "k \<noteq> []" "\<not> is_digit (hd k)"
    by (auto simp: key_ok_def list_all_iff)
  have ne: "\<not> key_char (CHR ''='')" using key_char_ascii by blast
  have t: "takeWhile key_char (k @ CHR ''='' # rest) = k"
    using kc ne by (simp add: takeWhile_append2)
  have d: "dropWhile key_char (k @ CHR ''='' # rest) = CHR ''='' # rest"
    using kc ne by (simp add: dropWhile_append2)
  show ?thesis
    unfolding varPattern_def Let_def t d using kn assms(2) by simp
qed

lemma TrimSpace_field_line:
  assumes "key_ok k"
  shows "TrimSpace (k @ CHR ''='' # squote # v @ [squote]) = k @ CHR ''='' # squote # v @ [squote]"
proof -
  from assms obtain c k' where k: "k = c # k'" "key_char c"
    by (cases k) (auto simp: key_ok_def)
  then have "\<not> space_prefix (k @ CHR ''='' # squote # v @ [squote])"
    using space_prefix_Cons[of c] key_char_ascii[of c] by simp
  moreover have "\<not> space_suffix ((k @ CHR ''='' # squote # v) @ [squote])"
    by (subst space_suffix_snoc) (simp_all add: is_ascii_def ascii_space_def)
  ultimately show ?thesis by (simp add: TrimSpace_id)
qed

lemma clean_name_hd: "clean_name n \<Longrightarrow> \<not> re_space (hd n) \<and> \<not> ascii_space (last n)"
proof -
  assume c: "clean_name n"
  then obtain a m where n: "n = a # m" by (cases n) (auto simp: clean_name_def)
  have "\<not> re_space a"
  proof
    assume "re_space a"
    then have "[a] \<in> set space_runes" using re_space_ascii_space ascii_space_rune by blast
    moreover have "prefix [a] n" using n by simp
    ultimately have "space_prefix n" unfolding space_prefix_def by blast
    with c show False by (simp add: clean_name_def)
  qed
  moreover have "\<not> ascii_space (last n)"
  proof
    assume "ascii_space (last n)"
    then have "[last n] \<in> set space_runes" by (rule ascii_space_rune)
    moreover have "suffix [last n] n" using n by (metis append_butlast_last_id list.distinct(1) suffixI)
    ultimately have "space_suffix n" unfolding space_suffix_def by blast
    with c show False by (simp add: clean_name_def)
  qed
  ultimately show ?thesis using n by simp
qed

lemma headerStartPattern_space:
  "headerStartPattern (''# '' @ l) = headerStartPattern (CHR ''#'' # l)"
  by (simp add: headerStartPattern_def re_space_def)

lemma headerStartPattern_name:
  assumes "clean_name n" "\<not> all_dashes n"
  shows "\<not> headerStartPattern (CHR ''#'' # n)"
proof
  assume h: "headerStartPattern (CHR ''#'' # n)"
  from clean_name_hd[OF assms(1)] have e: "\<not> re_space (hd n)" "\<not> ascii_space (last n)" by auto
  from assms(1) have nn: "n \<noteq> []" by (simp add: clean_name_def)
  with e(1) have d: "dropWhile re_space n = n" by (cases n) auto
  let ?r2 = "dropWhile (\<lambda>d. d = CHR ''-'') n"
  from h d have r2: "list_all re_space ?r2" by (simp add: headerStartPattern_def Let_def)
  have "?r2 = []"
  proof (rule ccontr)
    assume ne: "?r2 \<noteq> []"
    then have "last ?r2 = last n" by (metis last_appendR takeWhile_dropWhile_id)
    moreover have "re_space (last ?r2)" using r2 ne by (simp add: list_all_iff)
    ultimately show False using e(2) re_space_ascii_space by auto
  qed
  then have "list_all (\<lambda>c. c = CHR ''-'') n"
    by (simp add: list_all_iff dropWhile_eq_Nil_conv)
  with nn assms(2) show False by (simp add: all_dashes_def)
qed

lemma sectionPattern_marker:
  assumes "clean_name n"
  shows "sectionPattern (''# '' @ n) = Some n"
proof -
  from clean_name_hd[OF assms] assms have "dropWhile re_space n = n" "n \<noteq> []"
    by (cases n; auto simp: clean_name_def)+
  then show ?thesis by (simp add: sectionPattern_def re_space_def)
qed

subsection \<open>The line scanner\<close>

lemma Split_no_newline: "newline \<notin> set s \<Longrightarrow> Split s = [s]"
  by (induction s) auto

lemma Split_newline_free: "\<forall>l\<in>set (Split s). newline \<notin> set l"
  by (induction s) (auto split: list.splits)

lemma Split_line:
  "newline \<notin> set l \<Longrightarrow> Split (l @ newline # rest) = l # Split rest"
  by (induction l) auto

lemma Split_Join:
  "hs \<noteq> [] \<Longrightarrow> \<forall>l\<in>set hs. newline \<notin> set l \<Longrightarrow> Split (Join hs) = hs"
proof (induction hs rule: Join.induct)
  case 1
  then show ?case by simp
next
  case (2 x)
  then show ?case by (simp add: Split_no_newline)
next
  case (3 x y ys)
  then show ?case by (simp add: Split_line)
qed

lemma Scan_newline_free:
  assumes "Scan content = Inr ls"
  shows "\<forall>l\<in>set ls. newline \<notin> set l"
proof -
  have a: "\<forall>l\<in>set (raw_lines content). newline \<notin> set l"
    using Split_newline_free[of content] by (auto simp: raw_lines_def Let_def dest: in_set_butlastD)
  from assms have "ls = map dropCR (raw_lines content)"
    by (auto simp: Scan_def split: if_splits)
  moreover have "set (dropCR l) \<subseteq> set l" for l
    by (auto simp: dropCR_def dest: in_set_butlastD)
  ultimately show ?thesis using a by auto
qed

lemma parse_total_iff:
  "(\<exists>item. ParseEnvFileToItem content itemTitle = Inr item) \<longleftrightarrow>
     \<not> list_ex (\<lambda>l. MaxScanTokenSize \<le> length l) (raw_lines content)"
  by (simp add: ParseEnvFileToItem_def Scan_def)

lemma parse_Inr:
  "ParseEnvFileToItem content t = Inr item \<Longrightarrow>
     \<exists>ls. Scan content = Inr ls \<and> item = finish t (scan_all ls)"
  by (auto simp: ParseEnvFileToItem_def split: sum.splits)

subsection \<open>One iteration of the scanning loop\<close>

lemma scan_line_cases [case_names skip toggle hdr sect var]:
  obtains
    (skip) "scan_line st ln = st"
  | (toggle) "TrimSpace ln \<noteq> []" "headerStartPattern (TrimSpace ln)"
      "scan_line st ln = st\<lparr>inHeader := \<not> inHeader st\<rparr>"
  | (hdr) "TrimSpace ln \<noteq> []" "\<not> headerStartPattern (TrimSpace ln)" "inHeader st"
      "HasPrefix (TrimSpace ln) ''#''"
      "scan_line st ln =
         st\<lparr>headerLines := headerLines st @ [TrimPrefix (TrimSpace (TrimSpace ln)) ''#'']\<rparr>"
  | (sect) cap where "TrimSpace ln \<noteq> []" "\<not> headerStartPattern (TrimSpace ln)"
      "\<not> inHeader st" "HasPrefix (TrimSpace ln) ''#''"
      "sectionPattern (TrimSpace ln) = Some cap"
      "scan_line st ln = st\<lparr>currentSection := TrimSpace cap\<rparr>"
  | (var) key v where "TrimSpace ln \<noteq> []" "\<not> headerStartPattern (TrimSpace ln)"
      "\<not> inHeader st" "varPattern (TrimSpace ln) = Some (key, v)"
      "scan_line st ln =
         st\<lparr>itemFields := itemFields st @
              [new_field key (Trim v [squote, dquote]) (currentSection st)]\<rparr>"
proof (cases "TrimSpace ln = []")
  case True
  then have "scan_line st ln = st" by (simp add: scan_line_def)
  then show ?thesis by (rule skip)
next
  case ne: False
  show ?thesis
  proof (cases "headerStartPattern (TrimSpace ln)")
    case True
    with ne have "scan_line st ln = st\<lparr>inHeader := \<not> inHeader st\<rparr>"
      by (simp add: scan_line_def)
    with ne True show ?thesis by (rule toggle)
  next
    case nh: False
    show ?thesis
    proof (cases "inHeader st")
      case True
      show ?thesis
      proof (cases "HasPrefix (TrimSpace ln) ''#''")
        case hp: True
        with ne nh True have "scan_line st ln =
            st\<lparr>headerLines := headerLines st @ [TrimPrefix (TrimSpace (TrimSpace ln)) ''#'']\<rparr>"
          by (simp add: scan_line_def)
        with ne nh True hp show ?thesis by (rule hdr)
      next
        case False
        with ne nh True have "scan_line st ln = st" by (simp add: scan_line_def)
        then show ?thesis by (rule skip)
      qed
    next
      case ni: False
      show ?thesis
      proof (cases "HasPrefix (TrimSpace ln) ''#'' \<and> sectionPattern (TrimSpace ln) \<noteq> None")
        case True
        then obtain cap where cap: "sectionPattern (TrimSpace ln) = Some cap" by auto
        with ne nh ni True have "scan_line st ln = st\<lparr>currentSection := TrimSpace cap\<rparr>"
          by (simp add: scan_line_def)
        with ne nh ni True cap show ?thesis using sect by blast
      next
        case ns: False
        then have sel: "(if HasPrefix (TrimSpace ln) ''#'' \<and> \<not> headerStartPattern (TrimSpace ln)
               then sectionPattern (TrimSpace ln) else None) = None" by auto
        show ?thesis
        proof (cases "varPattern (TrimSpace ln)")
          case None
          with ne nh ni sel have "scan_line st ln = st" by (simp add: scan_line_def)
          then show ?thesis by (rule skip)
        next
          case (Some kv)
          obtain key v where kv: "kv = (key, v)" by (cases kv)
          with Some ne nh ni sel have "scan_line st ln =
             st\<lparr>itemFields := itemFields st @
              [new_field key (Trim v [squote, dquote]) (currentSection st)]\<rparr>"
            by (simp add: scan_line_def)
          with ne nh ni Some kv show ?thesis using var by blast
        qed
      qed
    qed
  qed
qed

lemma scan_line_keeps_section:
  "currentSection st \<noteq> [] \<Longrightarrow> currentSection (scan_line st ln) \<noteq> []"
  by (cases rule: scan_line_cases[of st ln]) (auto simp: section_name_nonempty)

lemma scan_line_var:
  assumes "\<not> inHeader st" "varPattern (TrimSpace ln) = Some (key, v)"
  shows "scan_line st ln =
     st\<lparr>itemFields := itemFields st @ [new_field key (Trim v quote_chars) (currentSection st)]\<rparr>"
  using assms varPattern_not_comment[OF assms(2)]
  by (simp add: scan_line_def)

lemma scan_line_blank: "scan_line st [] = st"
  by (simp add: scan_line_def TrimSpace_def TrimLeftSpace_def TrimRightSpace_def)

lemma scan_line_field:
  assumes "\<not> inHeader st" "key_ok k" "clean_value v"
  shows "scan_line st (field_ln (new_field k v s)) =
           st\<lparr>itemFields := itemFields st @ [new_field k v (currentSection st)]\<rparr>"
proof -
  have fl: "field_ln (new_field k v s) = k @ CHR ''='' # squote # v @ [squote]"
    by (simp add: field_ln_def new_field_def)
  have nl: "newline \<notin> set (squote # v @ [squote])" using assms(3) by (simp add: clean_value_def)
  have "varPattern (TrimSpace (field_ln (new_field k v s))) = Some (k, squote # v @ [squote])"
    unfolding fl TrimSpace_field_line[OF assms(2)] using varPattern_field_ln[OF assms(2) nl] .
  from scan_line_var[OF assms(1) this] show ?thesis
    by (simp add: Trim_quoted[OF assms(3)])
qed

lemma scan_line_marker:
  assumes "\<not> inHeader st" "clean_name n" "\<not> all_dashes n"
  shows "scan_line st (''# '' @ n) = st\<lparr>currentSection := n\<rparr>"
proof -
  from assms(2) have n: "n \<noteq> []" "\<not> space_suffix n" "\<not> space_prefix n" by (auto simp: clean_name_def)
  have t: "TrimSpace (''# '' @ n) = ''# '' @ n" using n by (intro TrimSpace_comment)
  have h: "\<not> headerStartPattern (''# '' @ n)"
    unfolding headerStartPattern_space using headerStartPattern_name[OF assms(2,3)] .
  have s: "sectionPattern (''# '' @ n) = Some n" by (rule sectionPattern_marker[OF assms(2)])
  have tn: "TrimSpace n = n" using n by (intro TrimSpace_id)
  show ?thesis
    unfolding scan_line_def Let_def t using assms(1) h s tn
    by (simp add: HasPrefix_def)
qed

lemma scan_line_delimiter: "scan_line st delimiter_line = st\<lparr>inHeader := \<not> inHeader st\<rparr>"
  by (simp add: delimiter_line_eval scan_line_def go_string_defs)

lemma scan_line_note:
  assumes "inHeader st" "hdr_ok l" "TrimSpace l \<noteq> []"
  shows "scan_line st (''# '' @ l) = st\<lparr>headerLines := headerLines st @ [CHR '' '' # l]\<rparr>"
proof -
  from assms(3) have ln: "l \<noteq> []"
    by (auto simp: TrimSpace_def TrimLeftSpace_def TrimRightSpace_def)
  with assms(2) have ns: "\<not> space_suffix l" by (simp add: hdr_ok_def)
  have t: "TrimSpace (''# '' @ l) = ''# '' @ l" using ln ns by (rule TrimSpace_comment)
  have h: "\<not> headerStartPattern (''# '' @ l)"
    unfolding headerStartPattern_space using assms(2) by (simp add: hdr_ok_def)
  show ?thesis
    unfolding scan_line_def Let_def t using assms(1) h
    by (simp add: HasPrefix_def TrimPrefix_def)
qed

lemma hdr_line_ok:
  assumes "HasPrefix (TrimSpace ln) ''#''" "\<not> headerStartPattern (TrimSpace ln)" "newline \<notin> set ln"
  shows "hdr_ok (TrimPrefix (TrimSpace (TrimSpace ln)) ''#'')"
proof -
  let ?line = "TrimSpace ln"
  from assms(1) obtain l where l: "?line = CHR ''#'' # l"
    by (auto simp: HasPrefix_def prefix_def)
  have "TrimSpace ?line = CHR ''#'' # l" using l TrimSpace_idem[of ln] by simp
  then have tp: "TrimPrefix (TrimSpace ?line) ''#'' = l"
    by (simp add: TrimPrefix_def HasPrefix_def)
  have "newline \<notin> set l" using set_TrimSpace[of ln] assms(3) l by auto
  moreover have "\<not> headerStartPattern (CHR ''#'' # l)" using assms(2) l by simp
  moreover have "\<not> space_suffix l"
  proof
    assume "space_suffix l"
    moreover have "suffix l ?line" using l by (simp add: suffix_ConsI)
    ultimately have "space_suffix ?line" using space_suffix_mono by blast
    then show False using TrimSpace_no_suffix by blast
  qed
  ultimately show ?thesis unfolding tp hdr_ok_def by simp
qed

subsection \<open>Invariants of the scanning loop\<close>

lemma sect_inv_init: "sect_inv init_state"
  by (simp add: sect_inv_def init_state_def sect_ordered_def)

lemma sect_ordered_snoc:
  assumes "sect_ordered fs" "Section f = None \<longrightarrow> (\<forall>g\<in>set fs. Section g = None)"
  shows "sect_ordered (fs @ [f])"
  unfolding sect_ordered_def
proof (intro allI impI)
  fix i j
  assume ij: "i < j" "j < length (fs @ [f])" "Section ((fs @ [f]) ! i) \<noteq> None"
  then have i: "i < length fs" "Section (fs ! i) \<noteq> None" by (auto simp: nth_append)
  show "Section ((fs @ [f]) ! j) \<noteq> None"
  proof (cases "j < length fs")
    case True
    with assms(1) ij(1) i show ?thesis by (auto simp: sect_ordered_def nth_append)
  next
    case False
    with ij(2) have "(fs @ [f]) ! j = f" by (simp add: nth_append)
    moreover have "Section f \<noteq> None" using assms(2) i by (metis nth_mem)
    ultimately show ?thesis by simp
  qed
qed

lemma sect_inv_step:
  assumes "sect_inv st"
  shows "sect_inv (scan_line st ln)"
proof (cases rule: scan_line_cases[of st ln])
  case skip
  with assms show ?thesis by simp
next
  case toggle
  with assms show ?thesis by (simp add: sect_inv_def)
next
  case hdr
  with assms show ?thesis by (simp add: sect_inv_def)
next
  case (sect cap)
  with assms show ?thesis by (simp add: sect_inv_def section_name_nonempty)
next
  case (var key v)
  let ?f = "new_field key (Trim v [squote, dquote]) (currentSection st)"
  have id: "ID ?f = []" by (simp add: new_field_def)
  have sec: "Section ?f = None \<longleftrightarrow> currentSection st = []" by (simp add: new_field_def)
  have "sect_ordered (itemFields st @ [?f])"
    using assms sec by (intro sect_ordered_snoc) (auto simp: sect_inv_def)
  then show ?thesis
    unfolding var(5) using assms id sec by (auto simp: sect_inv_def)
qed

lemma sect_inv_foldl: "sect_inv st \<Longrightarrow> sect_inv (foldl scan_line st ls)"
  by (induction ls arbitrary: st) (auto simp: sect_inv_step)

lemma sect_inv_scan_all: "sect_inv (scan_all ls)"
  by (simp add: scan_all_def sect_inv_foldl sect_inv_init)

lemma parse_inv_init: "parse_inv init_state"
  by (simp add: parse_inv_def init_state_def)

lemma parse_inv_step:
  assumes "parse_inv st" "newline \<notin> set ln"
  shows "parse_inv (scan_line st ln)"
proof (cases rule: scan_line_cases[of st ln])
  case skip
  with assms show ?thesis by simp
next
  case toggle
  with assms show ?thesis by (simp add: parse_inv_def)
next
  case hdr
  with assms hdr_line_ok[OF hdr(4) hdr(2) assms(2)] show ?thesis by (simp add: parse_inv_def)
next
  case (sect cap)
  with assms clean_section_name[OF sect(5) assms(2)] show ?thesis by (simp add: parse_inv_def)
next
  case (var key v)
  from varPattern_Some[OF var(4)] have k: "key_ok key" "newline \<notin> set v"
    by (auto simp: key_ok_def)
  have "clean_field (new_field key (Trim v [squote, dquote]) (currentSection st))"
    unfolding clean_field_def using k clean_value_Trim assms(1) by (auto simp: parse_inv_def)
  with assms show ?thesis unfolding var(5) by (simp add: parse_inv_def)
qed

lemma parse_inv_foldl:
  "parse_inv st \<Longrightarrow> \<forall>l\<in>set ls. newline \<notin> set l \<Longrightarrow> parse_inv (foldl scan_line st ls)"
  by (induction ls arbitrary: st) (auto simp: parse_inv_step)

lemma parse_inv_scan:
  "Scan content = Inr ls \<Longrightarrow> parse_inv (scan_all ls)"
  unfolding scan_all_def
  by (intro parse_inv_foldl parse_inv_init Scan_newline_free)

subsection \<open>The type of a field\<close>

lemma Contains_sublist: "Contains s sub = sublist sub s"
  by (induction s) (auto simp: sublist_Cons_right)

text \<open>
  The encoding of a rune beyond ASCII has no ASCII byte, so an ASCII keyword is found in
  the encoding of a list of runes exactly where its letters are runes of the list.
\<close>

lemma of_char_char_of_byte: "n < 256 \<Longrightarrow> (of_char (char_of (n::nat)) :: nat) = n"
  by (simp add: of_char_of)

lemma EncodeRune_beyond_ascii:
  assumes "0x7F < r"
  shows "EncodeRune r \<noteq> [] \<and> list_all (\<lambda>c. \<not> is_ascii c) (EncodeRune r)"
proof -
  have cont: "\<not> is_ascii (char_of (0x80 + n mod 64))" for n :: nat
  proof -
    have "0x80 + n mod 64 < (256::nat)"
      using mod_less_divisor[of 64 n] by arith
    then show ?thesis by (simp add: is_ascii_def of_char_char_of_byte del: of_char_of)
  qed
  have lead: "\<not> is_ascii (char_of (a + n))" if "128 \<le> a" "a + n < 256" for a n :: nat
    using that by (simp add: is_ascii_def of_char_char_of_byte del: of_char_of)
  consider "r \<le> 0x7FF" | "0x7FF < r" "0x10FFFF < r \<or> (0xD800 \<le> r \<and> r \<le> 0xDFFF)"
    | "0x7FF < r" "\<not> (0x10FFFF < r \<or> (0xD800 \<le> r \<and> r \<le> 0xDFFF))" "r \<le> 0xFFFF"
    | "0xFFFF < r" "r \<le> 0x10FFFF" by arith
  then show ?thesis
  proof cases
    case 1
    then have "r div 64 < 32" by arith
    then have "\<not> is_ascii (char_of (0xC0 + r div 64))" by (intro lead) auto
    then show ?thesis using assms 1 cont[of r] by (simp add: EncodeRune_def)
  next
    case 2
    then show ?thesis using assms by (simp add: EncodeRune_def is_ascii_def)
  next
    case 3
    then have "r div 4096 < 16" by arith
    then have "\<not> is_ascii (char_of (0xE0 + r div 4096))" by (intro lead) auto
    then show ?thesis using assms 3 cont[of r] cont[of "r div 64"]
      by (simp add: EncodeRune_def is_ascii_def)
  next
    case 4
    then have "r div 262144 < 5" by arith
    then have "\<not> is_ascii (char_of (0xF0 + r div 262144))" by (intro lead) auto
    then show ?thesis using assms 4 cont[of r] cont[of "r div 64"] cont[of "r div 4096"]
      by (simp add: EncodeRune_def is_ascii_def)
  qed
qed

lemma prefix_skip_beyond_ascii:
  assumes "list_all is_ascii k" "k \<noteq> []" "\<not> is_ascii b"
  shows "\<not> prefix k (b # bs)"
  using assms by (cases k) auto

lemma sublist_skip_beyond_ascii:
  assumes "list_all is_ascii k" "k \<noteq> []" "list_all (\<lambda>c. \<not> is_ascii c) bs"
  shows "sublist k (bs @ zs) \<longleftrightarrow> sublist k zs"
  using assms(3)
proof (induction bs)
  case Nil
  then show ?case by simp
next
  case (Cons b bs)
  then show ?case
    using prefix_skip_beyond_ascii[OF assms(1,2), of b "bs @ zs"]
    by (simp add: sublist_Cons_right)
qed

lemma prefix_encode:
  "list_all is_ascii k \<Longrightarrow> prefix k (encode rs) \<longleftrightarrow> prefix (map of_char k) rs"
proof (induction k arbitrary: rs)
  case Nil
  then show ?case by simp
next
  case (Cons c k)
  show ?case
  proof (cases rs)
    case Nil
    then show ?thesis by (simp add: encode_def)
  next
    case (Cons r rs')
    show ?thesis
    proof (cases "r \<le> 0x7F")
      case True
      then have e: "encode rs = char_of r # encode rs'"
        using Cons by (simp add: encode_def EncodeRune_ascii)
      have "char_of r = c \<longleftrightarrow> r = of_char c"
        using True by (auto simp: of_char_char_of_byte simp del: of_char_of)
      then show ?thesis using e Cons Cons.IH[of rs'] Cons.prems by auto
    next
      case False
      then have nz: "EncodeRune r \<noteq> [] \<and> list_all (\<lambda>c. \<not> is_ascii c) (EncodeRune r)"
        by (intro EncodeRune_beyond_ascii) simp
      then obtain b bs where b: "EncodeRune r = b # bs" "\<not> is_ascii b"
        by (cases "EncodeRune r") auto
      have "\<not> prefix (c # k) (b # (bs @ encode rs'))"
        using Cons.prems b(2) by (intro prefix_skip_beyond_ascii) auto
      moreover have "r \<noteq> of_char c"
        using False Cons.prems by (auto simp: is_ascii_def)
      ultimately show ?thesis using Cons b by (simp add: encode_def)
    qed
  qed
qed

lemma sublist_encode:
  assumes "list_all is_ascii k"
  shows "sublist k (encode rs) \<longleftrightarrow> sublist (map of_char k) rs"
proof (cases "k = []")
  case True
  then show ?thesis by simp
next
  case kn: False
  show ?thesis
  proof (induction rs)
    case Nil
    then show ?case using kn by (simp add: encode_def)
  next
    case (Cons r rs)
    show ?case
    proof (cases "r \<le> 0x7F")
      case True
      then have e: "encode (r # rs) = char_of r # encode rs"
        by (simp add: encode_def EncodeRune_ascii)
      have "prefix k (encode (r # rs)) \<longleftrightarrow> prefix (map of_char k) (r # rs)"
        using assms by (rule prefix_encode)
      then show ?thesis using Cons e by (simp add: sublist_Cons_right)
    next
      case False
      then have nz: "list_all (\<lambda>c. \<not> is_ascii c) (EncodeRune r)"
        using EncodeRune_beyond_ascii[of r] by simp
      have "sublist k (EncodeRune r @ encode rs) \<longleftrightarrow> sublist k (encode rs)"
        using assms kn nz by (rule sublist_skip_beyond_ascii)
      moreover have "\<not> prefix (map of_char k) (r # rs)"
        using False assms kn by (cases k) (auto simp: is_ascii_def)
      ultimately show ?thesis using Cons by (simp add: encode_def sublist_Cons_right)
    qed
  qed
qed

text \<open>
  The upper case of a rune is a given upper-case ASCII letter exactly when the rune is
  that letter up to case.
\<close>

lemma ToUpper_rune_same_letter:
  assumes "upper_table tbl" "is_upper d"
  shows "ToUpper_rune tbl r = of_char d \<longleftrightarrow> same_letter r d"
proof (cases "r \<le> 0x7F")
  case True
  then show ?thesis using assms(2)
    by (auto simp: ToUpper_rune_def same_letter_def is_upper_def is_lower_def)
next
  case False
  have d: "(of_char d :: nat) < 0x80" "\<not> is_lower d"
    using assms(2) by (auto simp: is_upper_def is_lower_def)
  have "tbl r = of_char d \<longleftrightarrow> (r = 0x131 \<and> d = CHR ''I'') \<or> (r = 0x17F \<and> d = CHR ''S'')"
  proof (cases "r = 0x131 \<or> r = 0x17F")
    case True
    have "(of_char d :: nat) = 0x49 \<longleftrightarrow> d = CHR ''I''"
      using of_char_eq_iff[of d "CHR ''I''", where ?'a = nat] by simp
    moreover have "(of_char d :: nat) = 0x53 \<longleftrightarrow> d = CHR ''S''"
      using of_char_eq_iff[of d "CHR ''S''", where ?'a = nat] by simp
    ultimately show ?thesis using True assms(1) by (auto simp: upper_table_def)
  next
    case F: False
    then have "0x80 \<le> tbl r" using False assms(1) by (simp add: upper_table_def)
    then show ?thesis using F d by auto
  qed
  then show ?thesis using False d assms(2)
    by (auto simp: ToUpper_rune_def same_letter_def is_upper_def)
qed


lemma map_ToUpper_rune_same_letter:
  assumes "upper_table tbl"
  shows "list_all is_upper kw \<Longrightarrow>
           map (ToUpper_rune tbl) u = map of_char kw \<longleftrightarrow> list_all2 same_letter u kw"
proof (induction kw arbitrary: u)
  case Nil
  then show ?case by simp
next
  case (Cons d kw)
  then show ?case
    by (cases u) (auto simp: ToUpper_rune_same_letter[OF assms])
qed

lemma map_eq_appendD:
  "map f xs = ys @ zs \<Longrightarrow> \<exists>us vs. xs = us @ vs \<and> map f us = ys \<and> map f vs = zs"
  by (auto simp: map_eq_append_conv)

lemma is_upper_ascii: "list_all is_upper kw \<Longrightarrow> list_all is_ascii kw"
  by (induction kw) (auto simp: is_upper_def is_ascii_def)

lemma ToUpper_by_encode: "ToUpper_by tbl s = encode (map (ToUpper_rune tbl) (decode s))"
  by (simp add: ToUpper_by_def encode_def comp_def)

lemma Contains_keyword_occurs:
  assumes "upper_table tbl" "list_all is_upper kw"
  shows "Contains (ToUpper_by tbl name) kw \<longleftrightarrow> keyword_occurs name kw"
proof -
  have "Contains (ToUpper_by tbl name) kw \<longleftrightarrow>
          sublist (map of_char kw) (map (ToUpper_rune tbl) (decode name))"
    using is_upper_ascii[OF assms(2)]
    by (simp add: Contains_sublist ToUpper_by_encode sublist_encode)
  also have "\<dots> \<longleftrightarrow> keyword_occurs name kw"
  proof
    assume "sublist (map of_char kw) (map (ToUpper_rune tbl) (decode name))"
    then obtain pre post where
      "map (ToUpper_rune tbl) (decode name) = pre @ map of_char kw @ post"
      by (auto simp: sublist_def)
    then obtain p r where pr: "decode name = p @ r"
      "map (ToUpper_rune tbl) r = map of_char kw @ post"
      using map_eq_appendD by blast
    then obtain u q where "r = u @ q" "map (ToUpper_rune tbl) u = map of_char kw"
      using map_eq_appendD by blast
    with pr have "decode name = p @ u @ q" "map (ToUpper_rune tbl) u = map of_char kw"
      by auto
    then show "keyword_occurs name kw"
      using map_ToUpper_rune_same_letter[OF assms] unfolding keyword_occurs_def by blast
  next
    assume "keyword_occurs name kw"
    then obtain p u q where n: "decode name = p @ u @ q" "list_all2 same_letter u kw"
      by (auto simp: keyword_occurs_def)
    then have "map (ToUpper_rune tbl) u = map of_char kw"
      using map_ToUpper_rune_same_letter[OF assms] by blast
    with n(1) have "map (ToUpper_rune tbl) (decode name) =
        map (ToUpper_rune tbl) p @ map of_char kw @ map (ToUpper_rune tbl) q" by simp
    then show "sublist (map of_char kw) (map (ToUpper_rune tbl) (decode name))"
      unfolding sublist_def by blast
  qed
  finally show ?thesis .
qed

text \<open>The loop over the keywords.\<close>

lemma keyword_loop_iff:
  "keyword_loop up kws = (if \<exists>kw\<in>set kws. Contains up kw then ''CONCEALED'' else ''STRING'')"
  by (induction kws) auto

lemma passwordKeywords_upper: "kw \<in> set passwordKeywords \<Longrightarrow> list_all is_upper kw"
  by (auto simp: passwordKeywords_def is_upper_def)

text \<open>
  The result for any case table with the three properties of \<open>upper_table\<close>; the table
  of the model is one, and the result of \<open>getFieldType\<close> is the same for all of them.
\<close>

lemma case_table_upper: "upper_table case_table"
  by (simp add: upper_table_def case_table_def)

lemma keyword_loop_any_table:
  assumes "upper_table tbl"
  shows "keyword_loop (ToUpper_by tbl name) passwordKeywords =
           (if \<exists>kw\<in>set passwordKeywords. keyword_occurs name kw
            then ''CONCEALED'' else ''STRING'')"
  unfolding keyword_loop_iff
  using Contains_keyword_occurs[OF assms] passwordKeywords_upper
  by (metis (no_types, lifting))

lemma getFieldType_any_table:
  "upper_table tbl \<Longrightarrow>
     keyword_loop (ToUpper_by tbl name) passwordKeywords = getFieldType name"
  using keyword_loop_any_table[of tbl name] keyword_loop_any_table[OF case_table_upper, of name]
  by (simp add: getFieldType_def ToUpper_def)

text \<open>On a name of ASCII bytes the runes are the bytes.\<close>

lemma decode_ascii: "list_all is_ascii s \<Longrightarrow> decode s = map of_char s"
  by (induction s) (auto simp: decode_ascii_Cons)

text \<open>
  A rune and an ASCII byte are the same up to case exactly when they have the same upper
  case.
\<close>

lemma same_letter_upper_nat:
  fixes r u :: nat
  assumes "u < 128"
  shows "(r = u \<or> ((65 \<le> u \<and> u \<le> 90) \<and> r = u + 32) \<or> ((97 \<le> u \<and> u \<le> 122) \<and> r + 32 = u) \<or>
          ((u = 83 \<or> u = 115) \<and> r = 0x17F) \<or> ((u = 73 \<or> u = 105) \<and> r = 0x131)) \<longleftrightarrow>
         ToUpper_rune case_table r = ToUpper_rune case_table u"
proof -
  have u: "ToUpper_rune case_table u = (if 97 \<le> u \<and> u \<le> 122 then u - 32 else u)"
    using assms by (simp add: ToUpper_rune_def)
  consider "r \<le> 127" "97 \<le> r \<and> r \<le> 122" | "r \<le> 127" "\<not> (97 \<le> r \<and> r \<le> 122)"
    | "r = 305" | "r = 383" | "127 < r" "r \<noteq> 305" "r \<noteq> 383" by arith
  then show ?thesis
  proof cases
    case 1
    then have "ToUpper_rune case_table r = r - 32" by (simp add: ToUpper_rune_def)
    then show ?thesis using 1 assms unfolding u
      by (cases "97 \<le> u \<and> u \<le> 122") (simp_all, arith+)
  next
    case 2
    then have "ToUpper_rune case_table r = r" by (auto simp: ToUpper_rune_def)
    then show ?thesis using 2 assms unfolding u
      by (cases "97 \<le> u \<and> u \<le> 122") (simp_all, arith+)
  next
    case 3
    then have "ToUpper_rune case_table r = 73" by (simp add: ToUpper_rune_def case_table_def)
    then show ?thesis using 3 assms unfolding u
      by (cases "97 \<le> u \<and> u \<le> 122") (simp_all, arith+)
  next
    case 4
    then have "ToUpper_rune case_table r = 83" by (simp add: ToUpper_rune_def case_table_def)
    then show ?thesis using 4 assms unfolding u
      by (cases "97 \<le> u \<and> u \<le> 122") (simp_all, arith+)
  next
    case 5
    then have "ToUpper_rune case_table r = r" by (simp add: ToUpper_rune_def case_table_def)
    then show ?thesis using 5 assms unfolding u
      by (cases "97 \<le> u \<and> u \<le> 122") (simp_all, arith+)
  qed
qed

lemma same_letter_upper:
  assumes "is_ascii d"
  shows "same_letter r d \<longleftrightarrow>
           ToUpper_rune case_table r = ToUpper_rune case_table (of_char d)"
proof -
  have c1: "d = CHR ''I'' \<longleftrightarrow> (of_char d :: nat) = 73"
    using of_char_eq_iff[of d "CHR ''I''", where ?'a = nat] by simp
  have c2: "d = CHR ''S'' \<longleftrightarrow> (of_char d :: nat) = 83"
    using of_char_eq_iff[of d "CHR ''S''", where ?'a = nat] by simp
  have c3: "d = CHR ''i'' \<longleftrightarrow> (of_char d :: nat) = 105"
    using of_char_eq_iff[of d "CHR ''i''", where ?'a = nat] by simp
  have c4: "d = CHR ''s'' \<longleftrightarrow> (of_char d :: nat) = 115"
    using of_char_eq_iff[of d "CHR ''s''", where ?'a = nat] by simp
  show ?thesis
    unfolding same_letter_def is_upper_def is_lower_def c1 c2 c3 c4
    using assms[unfolded is_ascii_def] by (rule same_letter_upper_nat)
qed

text \<open>In a name of ASCII bytes a keyword occurs as a run of bytes.\<close>

lemma keyword_occurs_ascii:
  assumes "list_all is_ascii name"
  shows "keyword_occurs name kw \<longleftrightarrow>
           (\<exists>pre u post. name = pre @ u @ post \<and>
              list_all2 (\<lambda>c d. same_letter (of_char c) d) u kw)"
proof
  assume "keyword_occurs name kw"
  then obtain p u q where n: "map of_char name = p @ u @ q" "list_all2 same_letter u kw"
    using decode_ascii[OF assms] by (auto simp: keyword_occurs_def)
  then obtain p' r where pr: "name = p' @ r" "map of_char r = u @ q"
    using map_eq_appendD by blast
  then obtain u' q' where u: "r = u' @ q'" "map of_char u' = u"
    using map_eq_appendD by blast
  with n(2) have "list_all2 (\<lambda>c d. same_letter (of_char c) d) u' kw"
    by (auto simp: list_all2_map1)
  with pr u show "\<exists>pre u post. name = pre @ u @ post \<and>
              list_all2 (\<lambda>c d. same_letter (of_char c) d) u kw" by blast
next
  assume "\<exists>pre u post. name = pre @ u @ post \<and>
              list_all2 (\<lambda>c d. same_letter (of_char c) d) u kw"
  then obtain p u q where n: "name = p @ u @ q"
    "list_all2 (\<lambda>c d. same_letter (of_char c) d) u kw" by blast
  then have "decode name = map of_char p @ map of_char u @ map of_char q"
    using decode_ascii[OF assms] by simp
  moreover have "list_all2 same_letter (map of_char u) kw"
    using n(2) by (simp add: list_all2_map1)
  ultimately show "keyword_occurs name kw" unfolding keyword_occurs_def by blast
qed

text \<open>
  Names beyond ASCII: the long s and the dotless i are upper-cased to S and I; the Kelvin
  sign (U+212A), whose lower case is k, is an upper-case letter and is kept, so it is not
  matched by the K of \<^verbatim>\<open>KEY\<close>; a byte that is no UTF-8 is replaced by U+FFFD.
\<close>

lemmas decode_eval = decode.simps(2) DecodeRune_def RuneError_def
lemmas upper_eval = ToUpper_def ToUpper_by_def ToUpper_rune_def case_table_def EncodeRune_def
  char_of_eq_iff

lemma decode_long_s:
  "decode [CHR 0xC5, CHR 0xBF, CHR ''a'', CHR ''l'', CHR ''t''] = [0x17F, 97, 108, 116]"
  by (simp add: decode_eval)

lemma ToUpper_long_s:
  "ToUpper [CHR 0xC5, CHR 0xBF, CHR ''a'', CHR ''l'', CHR ''t''] = ''SALT''"
  by (simp add: upper_eval decode_long_s)

lemma decode_dotless_i:
  "decode [CHR ''c'', CHR ''r'', CHR ''e'', CHR ''d'', CHR ''e'', CHR ''n'', CHR ''t'',
           CHR 0xC4, CHR 0xB1, CHR ''a'', CHR ''l''] =
     [99, 114, 101, 100, 101, 110, 116, 0x131, 97, 108]"
  by (simp add: decode_eval)

lemma ToUpper_dotless_i:
  "ToUpper [CHR ''c'', CHR ''r'', CHR ''e'', CHR ''d'', CHR ''e'', CHR ''n'', CHR ''t'',
            CHR 0xC4, CHR 0xB1, CHR ''a'', CHR ''l''] = ''CREDENTIAL''"
  by (simp add: upper_eval decode_dotless_i)

lemma decode_kelvin_sign:
  "decode [CHR 0xE2, CHR 0x84, CHR 0xAA, CHR ''e'', CHR ''y''] = [0x212A, 101, 121]"
  by (simp add: decode_eval)

lemma ToUpper_kelvin_sign:
  "ToUpper [CHR 0xE2, CHR 0x84, CHR 0xAA, CHR ''e'', CHR ''y''] =
     [CHR 0xE2, CHR 0x84, CHR 0xAA, CHR ''E'', CHR ''Y'']"
  by (simp add: upper_eval decode_kelvin_sign)

lemma decode_invalid_byte: "decode [CHR ''a'', CHR 0xFF, CHR ''b''] = [97, 0xFFFD, 98]"
  by (simp add: decode_eval)

lemma ToUpper_invalid_byte:
  "ToUpper [CHR ''a'', CHR 0xFF, CHR ''b''] =
     [CHR ''A'', CHR 0xEF, CHR 0xBF, CHR 0xBD, CHR ''B'']"
  by (simp add: upper_eval decode_invalid_byte)

lemma getFieldType_dotless_i:
  "getFieldType [CHR ''c'', CHR ''r'', CHR ''e'', CHR ''d'', CHR ''e'', CHR ''n'', CHR ''t'',
                 CHR 0xC4, CHR 0xB1, CHR ''a'', CHR ''l''] = ''CONCEALED''"
  by (simp add: getFieldType_def passwordKeywords_def ToUpper_dotless_i)

lemma getFieldType_kelvin_sign:
  "getFieldType [CHR 0xE2, CHR 0x84, CHR 0xAA, CHR ''e'', CHR ''y''] = ''STRING''"
  by (simp add: getFieldType_def passwordKeywords_def ToUpper_kelvin_sign)

text \<open>
  Claim C6. For every field name, \<open>getFieldType\<close> returns \<^verbatim>\<open>CONCEALED\<close> exactly when one of
  the keywords \<^verbatim>\<open>PASSWORD\<close>, \<^verbatim>\<open>PASS\<close>, \<^verbatim>\<open>SECRET\<close>, \<^verbatim>\<open>KEY\<close>, \<^verbatim>\<open>TOKEN\<close>, \<^verbatim>\<open>AUTH\<close>, \<^verbatim>\<open>CREDENTIAL\<close>,
  \<^verbatim>\<open>HASH\<close>, \<^verbatim>\<open>SALT\<close> occurs in the name as a substring up to the case of letters, and
  \<^verbatim>\<open>STRING\<close> otherwise; \<^verbatim>\<open>DATABASE_URL\<close> and \<^verbatim>\<open>PORT\<close> are \<^verbatim>\<open>STRING\<close>, \<^verbatim>\<open>API_KEY\<close> and
  \<^verbatim>\<open>SMTP_PASS\<close> are \<^verbatim>\<open>CONCEALED\<close>.
\<close>

theorem getFieldType_keyword_match:
  "getFieldType name =
     (if \<exists>kw\<in>set [''PASSWORD'', ''PASS'', ''SECRET'', ''KEY'', ''TOKEN'', ''AUTH'',
                     ''CREDENTIAL'', ''HASH'', ''SALT'']. keyword_occurs name kw
      then ''CONCEALED'' else ''STRING'') \<and>
   getFieldType ''DATABASE_URL'' = ''STRING'' \<and> getFieldType ''API_KEY'' = ''CONCEALED'' \<and>
   getFieldType ''SMTP_PASS'' = ''CONCEALED'' \<and> getFieldType ''PORT'' = ''STRING''"
proof -
  have "getFieldType name =
     (if \<exists>kw\<in>set [''PASSWORD'', ''PASS'', ''SECRET'', ''KEY'', ''TOKEN'', ''AUTH'',
                     ''CREDENTIAL'', ''HASH'', ''SALT'']. keyword_occurs name kw
      then ''CONCEALED'' else ''STRING'')"
    using keyword_loop_any_table[OF case_table_upper, of name]
    unfolding getFieldType_def ToUpper_def passwordKeywords_def .
  moreover have "getFieldType ''DATABASE_URL'' = ''STRING''"
    by (simp add: getFieldType_def passwordKeywords_def go_string_defs)
  moreover have "getFieldType ''API_KEY'' = ''CONCEALED''"
    by (simp add: getFieldType_def passwordKeywords_def go_string_defs)
  moreover have "getFieldType ''SMTP_PASS'' = ''CONCEALED''"
    by (simp add: getFieldType_def passwordKeywords_def go_string_defs)
  moreover have "getFieldType ''PORT'' = ''STRING''"
    by (simp add: getFieldType_def passwordKeywords_def go_string_defs)
  ultimately show ?thesis by blast
qed

text \<open>
  The theorem of claim C6 at the names \<^verbatim>\<open>smtp_Pass\<close> and, with a long s for its first
  letter, \<^verbatim>\<open>salt\<close>.
\<close>

theorem getFieldType_keyword_match_witness:
  "keyword_occurs ''smtp_Pass'' ''PASS'' \<and> getFieldType ''smtp_Pass'' = ''CONCEALED'' \<and>
   keyword_occurs [CHR 0xC5, CHR 0xBF, CHR ''a'', CHR ''l'', CHR ''t''] ''SALT'' \<and>
   getFieldType [CHR 0xC5, CHR 0xBF, CHR ''a'', CHR ''l'', CHR ''t''] = ''CONCEALED''"
proof -
  have "decode ''smtp_Pass'' = [115, 109, 116, 112, 95] @ [80, 97, 115, 115] @ [] \<and>
        list_all2 same_letter [80, 97, 115, 115] ''PASS''"
    by (simp add: decode_ascii is_ascii_def same_letter_def is_lower_def is_upper_def)
  then have k1: "keyword_occurs ''smtp_Pass'' ''PASS''"
    unfolding keyword_occurs_def by blast
  have "decode [CHR 0xC5, CHR 0xBF, CHR ''a'', CHR ''l'', CHR ''t''] =
          [] @ [0x17F, 97, 108, 116] @ [] \<and>
        list_all2 same_letter [0x17F, 97, 108, 116] ''SALT''"
    by (simp add: decode_long_s same_letter_def is_lower_def is_upper_def)
  then have k2: "keyword_occurs [CHR 0xC5, CHR 0xBF, CHR ''a'', CHR ''l'', CHR ''t''] ''SALT''"
    unfolding keyword_occurs_def by blast
  from k1 k2 show ?thesis
    using getFieldType_keyword_match[of "''smtp_Pass''"]
      getFieldType_keyword_match[of "[CHR 0xC5, CHR 0xBF, CHR ''a'', CHR ''l'', CHR ''t'']"]
    by auto
qed

subsection \<open>The notes field and the order of the fields\<close>

text \<open>
  Claim C9. In every record that \<open>ParseEnvFileToItem\<close> returns, a field with the ID
  \<^verbatim>\<open>notesPlain\<close> can only be the last element of \<open>Fields\<close>, and such a field is present
  exactly when the scanning loop collected at least one header line.
\<close>

theorem notes_field_last:
  assumes "ParseEnvFileToItem content itemTitle = Inr item"
  shows "(\<forall>i < length (Fields item). ID (Fields item ! i) = ''notesPlain'' \<longrightarrow>
            Suc i = length (Fields item)) \<and>
         ((\<exists>f\<in>set (Fields item). ID f = ''notesPlain'') \<longleftrightarrow>
            collected_header_lines content \<noteq> [])"
proof -
  from assms obtain ls where ls: "Scan content = Inr ls" "item = finish itemTitle (scan_all ls)"
    using parse_Inr by blast
  have ids: "\<forall>f\<in>set (itemFields (scan_all ls)). ID f = []"
    using sect_inv_scan_all[of ls] by (simp add: sect_inv_def)
  have chl: "collected_header_lines content = headerLines (scan_all ls)"
    using ls by (simp add: collected_header_lines_def)
  have a: "\<forall>i < length (Fields item). ID (Fields item ! i) = ''notesPlain'' \<longrightarrow>
            Suc i = length (Fields item)"
    using ids ls(2) by (auto simp: finish_def nth_append notesField_def)
  have b: "(\<exists>f\<in>set (Fields item). ID f = ''notesPlain'') \<longleftrightarrow>
            collected_header_lines content \<noteq> []"
    using ids ls(2) chl by (auto simp: finish_def notesField_def)
  from a b show ?thesis by blast
qed

lemma parse_sample: "ParseEnvFileToItem sample_text ''t'' = Inr sample_item"
  by (simp add: sample_text_def sample_item_def go_string_defs parse_defs)

text \<open>The theorem of claim C9 on a text with a header block, a section and a variable.\<close>

theorem notes_field_last_witness:
  "ParseEnvFileToItem sample_text ''t'' = Inr sample_item \<and>
   ID (Fields sample_item ! 1) = ''notesPlain'' \<and> length (Fields sample_item) = 2 \<and>
   collected_header_lines sample_text \<noteq> []"
proof -
  have f: "ID (Fields sample_item ! 1) = ''notesPlain''" "length (Fields sample_item) = 2"
    by (simp_all add: sample_item_def)
  then have "\<exists>f\<in>set (Fields sample_item). ID f = ''notesPlain''"
    by (simp add: sample_item_def)
  with notes_field_last[OF parse_sample] f parse_sample show ?thesis by blast
qed

text \<open>
  Claim C10, amended. In every record that \<open>ParseEnvFileToItem\<close> returns, every field
  other than the notes field that has no section comes before every field that has a
  section; and one iteration of the scanning loop never takes \<open>currentSection\<close> from a
  non-empty value back to the empty string.
\<close>

theorem sectioned_fields_follow:
  "(ParseEnvFileToItem content itemTitle = Inr item \<longrightarrow>
      (\<forall>i j. i < length (Fields item) \<and> j < length (Fields item) \<and>
             ID (Fields item ! i) \<noteq> ''notesPlain'' \<and> Section (Fields item ! i) = None \<and>
             Section (Fields item ! j) \<noteq> None \<longrightarrow> i < j)) \<and>
   (currentSection st \<noteq> [] \<longrightarrow> currentSection (scan_line st ln) \<noteq> [])"
proof -
  have "i < j" if p: "ParseEnvFileToItem content itemTitle = Inr item"
    and ij: "i < length (Fields item)" "j < length (Fields item)"
      "ID (Fields item ! i) \<noteq> ''notesPlain''" "Section (Fields item ! i) = None"
      "Section (Fields item ! j) \<noteq> None" for i j
  proof -
    from p obtain ls where ls: "item = finish itemTitle (scan_all ls)"
      using parse_Inr by blast
    let ?fs = "itemFields (scan_all ls)"
    have inv: "sect_inv (scan_all ls)" by (rule sect_inv_scan_all)
    have F: "Fields item = ?fs @ (if 0 < length (headerLines (scan_all ls))
                                   then [notesField (headerLines (scan_all ls))] else [])"
      using ls by (simp add: finish_def)
    have i: "i < length ?fs \<and> Fields item ! i = ?fs ! i"
      using ij(1,3) unfolding F
      by (cases "i < length ?fs") (auto simp: nth_append notesField_def split: if_splits)
    have j: "j < length ?fs \<and> Fields item ! j = ?fs ! j"
      using ij(2,5) unfolding F
      by (cases "j < length ?fs") (auto simp: nth_append notesField_def split: if_splits)
    show "i < j"
    proof (rule ccontr)
      assume "\<not> i < j"
      with ij(4,5) have "j < i" by (cases "i = j") auto
      with inv i j ij(5) have "Section (?fs ! i) \<noteq> None"
        unfolding sect_inv_def sect_ordered_def by metis
      with ij(4) i show False by simp
    qed
  qed
  then show ?thesis using scan_line_keeps_section by blast
qed

text \<open>
  Claim C10 as stated fails on the same text: the notes field has no section and comes
  after the field of section \<^verbatim>\<open>S\<close>.
\<close>

theorem sectioned_fields_follow_counterexample:
  "ParseEnvFileToItem sample_text ''t'' = Inr sample_item \<and>
   Section (Fields sample_item ! 1) = None \<and> Section (Fields sample_item ! 0) \<noteq> None"
  using parse_sample by (simp add: sample_item_def)

lemma parse_sample2: "ParseEnvFileToItem sample_text2 ''t'' = Inr sample_item2"
  by (simp add: sample_text2_def sample_item2_def go_string_defs parse_defs)

text \<open>The theorem of claim C10 on a text with an ungrouped and a grouped variable.\<close>

theorem sectioned_fields_follow_witness:
  "ParseEnvFileToItem sample_text2 ''t'' = Inr sample_item2 \<and>
   ID (Fields sample_item2 ! 0) \<noteq> ''notesPlain'' \<and> Section (Fields sample_item2 ! 0) = None \<and>
   Section (Fields sample_item2 ! 1) \<noteq> None \<and> (0::nat) < 1 \<and>
   currentSection (init_state\<lparr>currentSection := ''S''\<rparr>) \<noteq> [] \<and>
   currentSection (scan_line (init_state\<lparr>currentSection := ''S''\<rparr>) ''# T'') = ''T''"
proof -
  have "currentSection (scan_line (init_state\<lparr>currentSection := ''S''\<rparr>) ''# T'') = ''T''"
    by (simp add: go_string_defs parse_defs)
  moreover have "currentSection (init_state\<lparr>currentSection := ''S''\<rparr>) \<noteq> []" by simp
  moreover have "ID (Fields sample_item2 ! 0) \<noteq> ''notesPlain''" "Section (Fields sample_item2 ! 0) = None"
   "Section (Fields sample_item2 ! 1) \<noteq> None"
    by (simp_all add: sample_item2_def)
  ultimately show ?thesis
    using parse_sample2
      sectioned_fields_follow[of sample_text2 "''t''" sample_item2 "init_state\<lparr>currentSection := ''S''\<rparr>" "''# T''"]
    by simp
qed

subsection \<open>Lines that are skipped, and lines that are too long\<close>

text \<open>
  Claim C8 as stated fails: on a text that is one line of 65536 bytes the scanner stops
  with \<^verbatim>\<open>ErrTooLong\<close> and \<open>ParseEnvFileToItem\<close> returns the error, not a record.
\<close>

theorem parse_long_line_fails:
  "ParseEnvFileToItem (replicate 65536 (CHR ''A'')) ''t'' = Inl ErrTooLong"
proof -
  have "Split (replicate 65536 (CHR ''A'')) = [replicate 65536 (CHR ''A'')]"
    by (rule Split_no_newline) simp
  then have "raw_lines (replicate 65536 (CHR ''A'')) = [replicate 65536 (CHR ''A'')]"
    by (simp add: raw_lines_def)
  then show ?thesis
    by (simp add: ParseEnvFileToItem_def Scan_def MaxScanTokenSize_def)
qed

text \<open>
  Claim C8, amended. On every text whose lines are all shorter than 64 KiB
  \<open>ParseEnvFileToItem\<close> returns a record; and a line that is not blank, not a header
  delimiter, not a comment inside the header, not a section marker and not a variable
  outside the header leaves the state of the scanning loop as it is, so that the scan of
  the remaining lines is the same with or without it.
\<close>

theorem parse_total_skips_unrecognised:
  "((\<forall>l\<in>set (raw_lines content). length l < MaxScanTokenSize) \<longrightarrow>
      (\<exists>item. ParseEnvFileToItem content itemTitle = Inr item)) \<and>
   (TrimSpace ln \<noteq> [] \<and> \<not> headerStartPattern (TrimSpace ln) \<and>
    \<not> (inHeader st \<and> HasPrefix (TrimSpace ln) ''#'') \<and>
    \<not> (\<not> inHeader st \<and> HasPrefix (TrimSpace ln) ''#'' \<and> sectionPattern (TrimSpace ln) \<noteq> None) \<and>
    \<not> (\<not> inHeader st \<and> varPattern (TrimSpace ln) \<noteq> None)
    \<longrightarrow> scan_line st ln = st \<and> foldl scan_line st (ln # rest) = foldl scan_line st rest)"
proof -
  have a: "\<exists>item. ParseEnvFileToItem content itemTitle = Inr item"
    if "\<forall>l\<in>set (raw_lines content). length l < MaxScanTokenSize"
    using that unfolding parse_total_iff by (auto simp: list_ex_iff)
  have b: "scan_line s ln = s"
    if "TrimSpace ln \<noteq> []" "\<not> headerStartPattern (TrimSpace ln)"
       "\<not> (inHeader s \<and> HasPrefix (TrimSpace ln) ''#'')"
       "\<not> (\<not> inHeader s \<and> HasPrefix (TrimSpace ln) ''#'' \<and> sectionPattern (TrimSpace ln) \<noteq> None)"
       "\<not> (\<not> inHeader s \<and> varPattern (TrimSpace ln) \<noteq> None)" for s
    using that by (cases rule: scan_line_cases[of s ln]) auto
  from a b show ?thesis by simp
qed

text \<open>The theorem of claim C8 on a text with an \<^verbatim>\<open>export\<close> line.\<close>

theorem parse_total_skips_unrecognised_witness:
  "raw_lines ''A=1\<newline>export B=2\<newline>'' = [''A=1'', ''export B=2''] \<and>
   ParseEnvFileToItem ''A=1\<newline>export B=2\<newline>'' ''t'' =
     Inr \<lparr>ItemID = [], Title = ''t'',
          Fields = [\<lparr>ID = [], Type = ''STRING'', Label = ''A'', Value = ''1'', Section = None\<rparr>],
          Vault = None\<rparr> \<and>
   TrimSpace ''export B=2'' \<noteq> [] \<and> \<not> headerStartPattern (TrimSpace ''export B=2'') \<and>
   \<not> HasPrefix (TrimSpace ''export B=2'') ''#'' \<and> varPattern (TrimSpace ''export B=2'') = None \<and>
   scan_line init_state ''export B=2'' = init_state"
proof -
  have r: "raw_lines ''A=1\<newline>export B=2\<newline>'' = [''A=1'', ''export B=2'']"
    by (simp add: go_string_defs)
  then have l: "\<forall>l\<in>set (raw_lines ''A=1\<newline>export B=2\<newline>'' ). length l < MaxScanTokenSize"
    by (simp add: MaxScanTokenSize_def)
  have p: "ParseEnvFileToItem ''A=1\<newline>export B=2\<newline>'' ''t'' =
     Inr \<lparr>ItemID = [], Title = ''t'',
          Fields = [\<lparr>ID = [], Type = ''STRING'', Label = ''A'', Value = ''1'', Section = None\<rparr>],
          Vault = None\<rparr>"
    by (simp add: go_string_defs parse_defs)
  have t: "TrimSpace ''export B=2'' = ''export B=2''" by (simp add: go_string_defs)
  have h: "\<not> headerStartPattern ''export B=2''" "\<not> HasPrefix ''export B=2'' ''#''"
    "varPattern ''export B=2'' = None"
    by (simp_all add: go_string_defs)
  from parse_total_skips_unrecognised[of "''A=1\<newline>export B=2\<newline>''" "''t''" "''export B=2''" init_state "[]"]
    r l p t h show ?thesis by simp
qed

subsection \<open>Quotes around a value\<close>

text \<open>
  Claim C4, amended. A variable line outside the header appends one field whose value is
  VALUE without all its leading and all its trailing single and double quote
  characters: what is removed on either side consists of quote characters only, and the
  stored value neither begins nor ends with one. The values \<^verbatim>\<open>'quoted'\<close> and \<^verbatim>\<open>"quoted"\<close>
  are stored as \<^verbatim>\<open>quoted\<close>, and written back as \<^verbatim>\<open>'quoted'\<close>.
\<close>

theorem value_quotes_trimmed:
  "(\<not> inHeader st \<and> varPattern (TrimSpace ln) = Some (key, v) \<longrightarrow>
      (\<exists>f a b. itemFields (scan_line st ln) = itemFields st @ [f] \<and> Label f = key \<and>
         v = a @ Value f @ b \<and> set a \<subseteq> {squote, dquote} \<and> set b \<subseteq> {squote, dquote} \<and>
         (Value f = [] \<or> (hd (Value f) \<notin> {squote, dquote} \<and> last (Value f) \<notin> {squote, dquote})))) \<and>
   Value (last (itemFields (scan_line init_state (''K='' @ sq ''quoted'')))) = ''quoted'' \<and>
   Value (last (itemFields (scan_line init_state ''K=\"quoted\"''))) = ''quoted'' \<and>
   field_line (last (itemFields (scan_line init_state ''K=\"quoted\"''))) =
     ''K='' @ sq ''quoted'' @ [newline]"
proof -
  have g: "\<exists>f a b. itemFields (scan_line st ln) = itemFields st @ [f] \<and> Label f = key \<and>
         v = a @ Value f @ b \<and> set a \<subseteq> {squote, dquote} \<and> set b \<subseteq> {squote, dquote} \<and>
         (Value f = [] \<or> (hd (Value f) \<notin> {squote, dquote} \<and> last (Value f) \<notin> {squote, dquote}))"
    if h: "\<not> inHeader st" "varPattern (TrimSpace ln) = Some (key, v)"
  proof -
    let ?f = "new_field key (Trim v quote_chars) (currentSection st)"
    have "itemFields (scan_line st ln) = itemFields st @ [?f]"
      using scan_line_var[OF h] by simp
    moreover have "Label ?f = key" "Value ?f = Trim v quote_chars" by (simp_all add: new_field_def)
    moreover from Trim_spec[of v quote_chars] obtain a b where
      "v = a @ Trim v quote_chars @ b" "set a \<subseteq> {squote, dquote}" "set b \<subseteq> {squote, dquote}"
      "Trim v quote_chars = [] \<or>
         (hd (Trim v quote_chars) \<notin> {squote, dquote} \<and> last (Trim v quote_chars) \<notin> {squote, dquote})"
      by auto
    ultimately show ?thesis by metis
  qed
  have e1: "Value (last (itemFields (scan_line init_state (''K='' @ sq ''quoted'')))) = ''quoted''"
    by (simp add: sq_def go_string_defs parse_defs)
  have e2: "Value (last (itemFields (scan_line init_state ''K=\"quoted\"''))) = ''quoted''"
    by (simp add: sq_def go_string_defs parse_defs)
  have e3: "field_line (last (itemFields (scan_line init_state ''K=\"quoted\"''))) =
     ''K='' @ sq ''quoted'' @ [newline]"
    by (simp add: sq_def go_string_defs parse_defs field_line_def)
  from g e1 e2 e3 show ?thesis by blast
qed

text \<open>
  Claim C4 as stated fails: the value \<^verbatim>\<open>'a\<close> begins with a quote and does not end with
  one, and is stored as \<^verbatim>\<open>a\<close>, not unchanged.
\<close>

theorem value_quotes_trimmed_counterexample:
  "varPattern (TrimSpace (''K='' @ [squote] @ ''a'')) = Some (''K'', [squote] @ ''a'') \<and>
   itemFields (scan_line init_state (''K='' @ [squote] @ ''a'')) =
     [\<lparr>ID = [], Type = ''STRING'', Label = ''K'', Value = ''a'', Section = None\<rparr>]"
  by (simp add: go_string_defs parse_defs)

text \<open>The theorem of claim C4 on the value \<^verbatim>\<open>"'a'\<close>, quoted twice.\<close>

theorem value_quotes_trimmed_witness:
  "\<not> inHeader init_state \<and>
   varPattern (TrimSpace (''K=\"'' @ sq ''a'')) = Some (''K'', ''\"'' @ sq ''a'') \<and>
   itemFields (scan_line init_state (''K=\"'' @ sq ''a'')) =
     itemFields init_state @ [\<lparr>ID = [], Type = ''STRING'', Label = ''K'', Value = ''a'', Section = None\<rparr>]"
proof -
  have a: "\<not> inHeader init_state" by (simp add: init_state_def)
  have b: "varPattern (TrimSpace (''K=\"'' @ sq ''a'')) = Some (''K'', ''\"'' @ sq ''a'')"
    by (simp add: sq_def go_string_defs)
  have c: "itemFields (scan_line init_state (''K=\"'' @ sq ''a'')) =
     itemFields init_state @ [\<lparr>ID = [], Type = ''STRING'', Label = ''K'', Value = ''a'', Section = None\<rparr>]"
    by (simp add: sq_def go_string_defs parse_defs)
  from value_quotes_trimmed[of init_state "''K=\"'' @ sq ''a''" "''K''" "''\"'' @ sq ''a''"] a b c
  show ?thesis by blast
qed

subsection \<open>Comment lines of the header\<close>

text \<open>
  Claim C5 at the header line \<^verbatim>\<open># X\<close>: the note line that is stored is \<^verbatim>\<open> X\<close> with its
  leading space, it is written back as \<^verbatim>\<open>#  X\<close> with two spaces, and parsing that gives
  the note line with two leading spaces.
\<close>

theorem header_comment_gains_space:
  "ParseEnvFileToItem header_sample ''t'' = Inr (header_item '' X'') \<and>
   WriteItemToEnvFile (header_item '' X'')
     (delimiter_line @ ''\<newline>#  X\<newline>'' @ delimiter_line @ ''\<newline>\<newline>'') \<and>
   ParseEnvFileToItem (delimiter_line @ ''\<newline>#  X\<newline>'' @ delimiter_line @ ''\<newline>\<newline>'') ''t'' =
     Inr (header_item ''  X'')"
proof -
  have p: "ParseEnvFileToItem header_sample ''t'' = Inr (header_item '' X'')"
    by (simp add: header_sample_def header_item_def go_string_defs parse_defs)
  have s: "sections (organize (header_item '' X'')) = Map.empty"
    by (simp add: header_item_def write_defs)
  then have r: "range_order (sections (organize (header_item '' X''))) []"
    by (simp add: range_order_def)
  have "written [] (header_item '' X'') =
      delimiter_line @ ''\<newline>#  X\<newline>'' @ delimiter_line @ ''\<newline>\<newline>''"
    by (simp add: header_item_def organize_def organize_field_def written_def header_text_def
        ungrouped_text_def go_string_defs delimiter_line_eval)
  with r have w: "WriteItemToEnvFile (header_item '' X'')
     (delimiter_line @ ''\<newline>#  X\<newline>'' @ delimiter_line @ ''\<newline>\<newline>'')"
    unfolding WriteItemToEnvFile_def by metis
  have q: "ParseEnvFileToItem (delimiter_line @ ''\<newline>#  X\<newline>'' @ delimiter_line @ ''\<newline>\<newline>'') ''t'' =
     Inr (header_item ''  X'')"
    by (simp add: delimiter_line_eval header_item_def go_string_defs parse_defs)
  from p w q show ?thesis by blast
qed

subsection \<open>The section map of the writer\<close>

lemma organize_field_empty:
  "ID f \<noteq> ''notesPlain'' \<Longrightarrow> Value f = [] \<Longrightarrow> organize_field st f = st"
  by (simp add: organize_field_def)

lemma foldl_organize_filter:
  "foldl organize_field st (filter (\<lambda>f. ID f = ''notesPlain'' \<or> Value f \<noteq> []) fs) =
   foldl organize_field st fs"
  by (induction fs arbitrary: st) (auto simp: organize_field_empty)

lemma organize_drop_empty: "organize (drop_empty item) = organize item"
  by (simp add: organize_def drop_empty_def foldl_organize_filter)

lemma nonempty_buckets_step:
  "nonempty_buckets st \<Longrightarrow> nonempty_buckets (organize_field st f)"
proof -
  assume inv: "nonempty_buckets st"
  show ?thesis
  proof (cases "ID f = ''notesPlain'' \<or> Value f = []")
    case True
    with inv show ?thesis by (auto simp: nonempty_buckets_def organize_field_def)
  next
    case False
    let ?old = "case sections st (sectionName f) of None \<Rightarrow> [] | Some fs \<Rightarrow> fs"
    have old: "\<forall>g\<in>set ?old. Value g \<noteq> [] \<and> ID g \<noteq> ''notesPlain'' \<and> sectionName g = sectionName f"
    proof (cases "sections st (sectionName f)")
      case None
      then show ?thesis by simp
    next
      case (Some fs)
      with inv show ?thesis unfolding nonempty_buckets_def by simp
    qed
    have eq: "sections (organize_field st f) = (sections st)(sectionName f \<mapsto> ?old @ [f])"
      using False by (simp add: organize_field_def)
    show ?thesis
      unfolding nonempty_buckets_def
    proof (intro allI impI)
      fix name fs
      assume a: "sections (organize_field st f) name = Some fs"
      show "fs \<noteq> [] \<and> (\<forall>g\<in>set fs. Value g \<noteq> [] \<and> ID g \<noteq> ''notesPlain'' \<and> sectionName g = name)"
      proof (cases "name = sectionName f")
        case True
        with a eq have "fs = ?old @ [f]" by simp
        with old False True show ?thesis by auto
      next
        case False
        with a eq have "sections st name = Some fs" by simp
        with inv show ?thesis unfolding nonempty_buckets_def by blast
      qed
    qed
  qed
qed

lemma nonempty_buckets_foldl:
  "nonempty_buckets st \<Longrightarrow> nonempty_buckets (foldl organize_field st fs)"
  by (induction fs arbitrary: st) (auto simp: nonempty_buckets_step)

lemma nonempty_buckets_organize: "nonempty_buckets (organize item)"
proof -
  have "nonempty_buckets \<lparr>notes_text = [], sections = Map.empty\<rparr>"
    by (simp add: nonempty_buckets_def)
  then show ?thesis unfolding organize_def by (rule nonempty_buckets_foldl)
qed

lemma bucket_organize_field:
  "bucket (sections (organize_field st f)) name =
     bucket (sections st) name @ in_section name (kept [f])"
  by (auto simp: organize_field_def bucket_def kept_def in_section_def split: option.splits)

lemma bucket_foldl:
  "bucket (sections (foldl organize_field st fs)) name =
     bucket (sections st) name @ in_section name (kept fs)"
proof (induction fs arbitrary: st)
  case Nil
  then show ?case by (simp add: kept_def in_section_def)
next
  case (Cons f fs)
  have "kept (f # fs) = kept [f] @ kept fs" by (simp add: kept_def)
  then show ?case
    by (simp add: Cons bucket_organize_field in_section_def)
qed

lemma bucket_organize:
  "bucket (sections (organize item)) name = in_section name (kept (Fields item))"
proof -
  have "bucket (sections \<lparr>notes_text = [], sections = Map.empty\<rparr>) name = []"
    by (simp add: bucket_def)
  then show ?thesis unfolding organize_def bucket_foldl by simp
qed

lemma sections_organize:
  "sections (organize item) name =
     (if in_section name (kept (Fields item)) = [] then None
      else Some (in_section name (kept (Fields item))))"
proof (cases "sections (organize item) name")
  case None
  then have "bucket (sections (organize item)) name = []" by (simp add: bucket_def)
  with None show ?thesis by (simp add: bucket_organize)
next
  case (Some fs)
  with nonempty_buckets_organize[of item] have "fs \<noteq> []"
    unfolding nonempty_buckets_def by blast
  moreover from Some have "bucket (sections (organize item)) name = fs" by (simp add: bucket_def)
  ultimately show ?thesis using Some by (simp add: bucket_organize)
qed

lemma dom_sections_organize:
  "dom (sections (organize item)) = sectionName ` set (kept (Fields item))"
proof -
  have "in_section name fs \<noteq> [] \<longleftrightarrow> name \<in> sectionName ` set fs" for name fs
    by (auto simp: in_section_def filter_empty_conv)
  then show ?thesis
    by (auto simp: dom_def sections_organize)
qed

lemma notes_text_foldl_plain:
  "\<forall>f\<in>set fs. ID f \<noteq> ''notesPlain'' \<Longrightarrow>
     notes_text (foldl organize_field st fs) = notes_text st"
  by (induction fs arbitrary: st) (auto simp: organize_field_def)

lemma finish_fields:
  assumes "sect_inv st"
  shows "kept (Fields (finish t st)) = filter (\<lambda>f. Value f \<noteq> []) (itemFields st)"
    and "notes_text (organize (finish t st)) =
           (if headerLines st = [] then [] else Join (headerLines st))"
proof -
  from assms have ids: "\<forall>f\<in>set (itemFields st). ID f \<noteq> ''notesPlain''"
    by (auto simp: sect_inv_def)
  then have k: "kept (itemFields st) = filter (\<lambda>f. Value f \<noteq> []) (itemFields st)"
    unfolding kept_def by (intro filter_cong) auto
  show "kept (Fields (finish t st)) = filter (\<lambda>f. Value f \<noteq> []) (itemFields st)"
    using k by (simp add: finish_def kept_def notesField_def)
  show "notes_text (organize (finish t st)) =
           (if headerLines st = [] then [] else Join (headerLines st))"
    using ids
    by (simp add: finish_def organize_def notes_text_foldl_plain organize_field_def notesField_def)
qed

lemma range_order_single: "range_order [k \<mapsto> v] ks \<longleftrightarrow> ks = [k]"
proof
  assume "range_order [k \<mapsto> v] ks"
  then have d: "distinct ks" "set ks = {k}" by (auto simp: range_order_def)
  then show "ks = [k]"
  proof (cases ks)
    case Nil
    with d show ?thesis by simp
  next
    case (Cons a as)
    with d have "a = k" "set as \<subseteq> {k}" "k \<notin> set as" by auto
    then have "as = []" by (cases as) auto
    with Cons \<open>a = k\<close> show ?thesis by simp
  qed
next
  assume "ks = [k]"
  then show "range_order [k \<mapsto> v] ks" by (simp add: range_order_def)
qed

subsection \<open>The text that is written, line by line\<close>

lemma unlines_append: "unlines (a @ b) = unlines a @ unlines b"
  by (simp add: unlines_def)

lemma unlines_Cons: "unlines (l # ls) = l @ newline # unlines ls"
  by (simp add: unlines_def)

lemma unlines_Nil: "unlines [] = []"
  by (simp add: unlines_def)

lemma unlines_concat: "unlines (concat xss) = concat (map unlines xss)"
  by (induction xss) (simp_all add: unlines_append unlines_Nil)

lemma field_line_ln: "field_line f = field_ln f @ [newline]"
  by (simp add: field_line_def field_ln_def)

lemma concat_field_lines: "concat (map field_line fs) = unlines (map field_ln fs)"
  by (induction fs) (simp_all add: unlines_Nil unlines_Cons field_line_ln)

lemma concat_prefixed:
  "concat (map (\<lambda>line. if P line then p @ line @ [newline] else []) ls) =
   unlines (map ((@) p) (filter P ls))"
  by (induction ls) (simp_all add: unlines_Nil unlines_Cons)

lemma header_text_unlines: "header_text ns = unlines (header_ls ns)"
  unfolding header_text_def header_ls_def concat_prefixed
  by (simp add: unlines_append unlines_Cons unlines_Nil)

lemma ungrouped_text_unlines: "ungrouped_text m = unlines (ungrouped_ls m)"
  by (simp add: ungrouped_text_def ungrouped_ls_def bucket_def concat_field_lines unlines_append
      unlines_Cons unlines_Nil split: option.splits)

lemma section_text_unlines: "section_text m name = unlines (section_ls m name)"
  by (simp add: section_text_def section_ls_def bucket_def concat_field_lines unlines_append
      unlines_Cons unlines_Nil split: option.splits)

lemma written_unlines: "written ks item = unlines (written_ls ks item)"
proof -
  have "section_text m = (\<lambda>x. unlines (section_ls m x))" for m
    by (rule ext) (rule section_text_unlines)
  then show ?thesis
    by (simp add: written_def written_ls_def Let_def header_text_unlines ungrouped_text_unlines
        unlines_append unlines_concat comp_def)
qed

lemma Split_unlines:
  "\<forall>l\<in>set ls. newline \<notin> set l \<Longrightarrow> Split (unlines ls) = ls @ [[]]"
  by (induction ls) (simp_all add: unlines_Nil unlines_Cons Split_line)

lemma raw_lines_unlines:
  "\<forall>l\<in>set ls. newline \<notin> set l \<Longrightarrow> raw_lines (unlines ls) = ls"
  by (simp add: raw_lines_def Split_unlines)

lemma written_ls_classified:
  assumes "l \<in> set (written_ls ks item)"
  shows "l = [] \<or> prefix ''# '' l \<or>
         (\<exists>f\<in>set (Fields item). ID f \<noteq> ''notesPlain'' \<and> Value f \<noteq> [] \<and> l = field_ln f)"
proof -
  let ?m = "sections (organize item)"
  have b: "\<exists>f\<in>set (Fields item). ID f \<noteq> ''notesPlain'' \<and> Value f \<noteq> [] \<and> field_ln g = field_ln f"
    if "g \<in> set (bucket ?m k)" for g k
    using that by (auto simp: bucket_organize in_section_def kept_def)
  have h: "x = [] \<or> prefix ''# '' x" if "x \<in> set (header_ls ns)" for x ns
    using that by (auto simp: header_ls_def delimiter_line_def split: if_splits)
  from assms consider "l \<in> set (header_ls (notes_text (organize item)))"
    | "l \<in> set (ungrouped_ls ?m)" | k where "l \<in> set (section_ls ?m k)"
    by (auto simp: written_ls_def)
  then show ?thesis
  proof cases
    case 1
    with h show ?thesis by blast
  next
    case 2
    then have "l = [] \<or> (\<exists>g\<in>set (bucket ?m []). l = field_ln g)"
      by (auto simp: ungrouped_ls_def split: if_splits)
    with b show ?thesis by blast
  next
    case 3
    then have "l = [] \<or> l = ''# '' @ k \<or> (\<exists>g\<in>set (bucket ?m k). l = field_ln g)"
      by (auto simp: section_ls_def split: if_splits)
    with b show ?thesis by auto
  qed
qed

subsection \<open>Empty values\<close>

text \<open>
  Claim C7. A field that is not the notes field and whose value is the empty string is
  never written: what \<open>WriteItemToEnvFile\<close> can write is the same with these fields
  removed from the record, no bucket of the section map holds a field with an empty
  value, and every line of the text that is written is empty, a comment line, or the line
  of a field of the record whose value is not empty.
\<close>

theorem empty_values_not_written:
  "(WriteItemToEnvFile (drop_empty item) out \<longleftrightarrow> WriteItemToEnvFile item out) \<and>
   (\<forall>name fs. sections (organize item) name = Some fs \<longrightarrow> (\<forall>f\<in>set fs. Value f \<noteq> [])) \<and>
   written ks item = unlines (written_ls ks item) \<and>
   (\<forall>l\<in>set (written_ls ks item).
      l = [] \<or> prefix ''# '' l \<or>
      (\<exists>f\<in>set (Fields item). ID f \<noteq> ''notesPlain'' \<and> Value f \<noteq> [] \<and> l = field_ln f))"
proof -
  have "written js (drop_empty item) = written js item" for js
    by (simp add: written_def organize_drop_empty)
  then have "WriteItemToEnvFile (drop_empty item) out \<longleftrightarrow> WriteItemToEnvFile item out"
    by (simp add: WriteItemToEnvFile_def organize_drop_empty)
  moreover have "\<forall>name fs. sections (organize item) name = Some fs \<longrightarrow> (\<forall>f\<in>set fs. Value f \<noteq> [])"
    using nonempty_buckets_organize[of item] unfolding nonempty_buckets_def by blast
  ultimately show ?thesis using written_unlines written_ls_classified by blast
qed

lemma organize_item_with_empty:
  "sections (organize item_with_empty) =
     [[] \<mapsto> [\<lparr>ID = [], Type = ''STRING'', Label = ''A'', Value = ''1'', Section = None\<rparr>]]"
  by (simp add: item_with_empty_def write_defs)

text \<open>The theorem of claim C7 on a record with two empty values.\<close>

theorem empty_values_not_written_witness:
  "sections (organize item_with_empty) [] = Some [plain_field ''A'' ''1''] \<and>
   WriteItemToEnvFile item_with_empty (''A='' @ sq ''1'' @ ''\<newline>\<newline>'') \<and>
   WriteItemToEnvFile (drop_empty item_with_empty) (''A='' @ sq ''1'' @ ''\<newline>\<newline>'') \<and>
   written_ls [[]] item_with_empty = [''A='' @ sq ''1'', []] \<and>
   field_ln (plain_field ''A'' ''1'') = ''A='' @ sq ''1''"
proof -
  have s: "sections (organize item_with_empty) [] = Some [plain_field ''A'' ''1'']"
    by (simp add: organize_item_with_empty plain_field_def)
  have r: "range_order (sections (organize item_with_empty)) [[]]"
    by (simp add: organize_item_with_empty range_order_def)
  have "written [[]] item_with_empty = ''A='' @ sq ''1'' @ ''\<newline>\<newline>''"
    by (simp add: item_with_empty_def write_defs sq_def)
  with r have w: "WriteItemToEnvFile item_with_empty (''A='' @ sq ''1'' @ ''\<newline>\<newline>'')"
    unfolding WriteItemToEnvFile_def by metis
  have l: "written_ls [[]] item_with_empty = [''A='' @ sq ''1'', []]"
    unfolding written_ls_def organize_item_with_empty
    by (simp add: item_with_empty_def organize_def organize_field_def header_ls_def
        ungrouped_ls_def section_ls_def bucket_def field_ln_def sq_def)
  have f: "field_ln (plain_field ''A'' ''1'') = ''A='' @ sq ''1''"
    by (simp add: field_ln_def plain_field_def sq_def)
  from empty_values_not_written[of item_with_empty "''A='' @ sq ''1'' @ ''\<newline>\<newline>''" "[[]]"]
  have "WriteItemToEnvFile (drop_empty item_with_empty) (''A='' @ sq ''1'' @ ''\<newline>\<newline>'')
        = WriteItemToEnvFile item_with_empty (''A='' @ sq ''1'' @ ''\<newline>\<newline>'')"
    by (rule conjunct1)
  with w s l f show ?thesis by blast
qed

subsection \<open>The order of the sections\<close>

text \<open>
  Claim C1 at the record with the section \<^verbatim>\<open>Email Settings\<close> before
  \<^verbatim>\<open>Redis Configuration\<close>: the text with the marker \<^verbatim>\<open># Redis Configuration\<close> first is
  one of the texts that \<open>WriteItemToEnvFile\<close> can write.
\<close>

theorem section_order_not_kept:
  "ParseEnvFileToItem
     ''# Email Settings\<newline>SMTP_HOST=smtp.gmail.com\<newline>\<newline># Redis Configuration\<newline>REDIS_HOST=localhost\<newline>''
     ''t'' = Inr item_email_redis \<and>
   WriteItemToEnvFile item_email_redis
     (''# Redis Configuration\<newline>REDIS_HOST='' @ sq ''localhost'' @ ''\<newline>\<newline>'' @
      ''# Email Settings\<newline>SMTP_HOST='' @ sq ''smtp.gmail.com'' @ ''\<newline>\<newline>'')"
proof -
  have p: "ParseEnvFileToItem
     ''# Email Settings\<newline>SMTP_HOST=smtp.gmail.com\<newline>\<newline># Redis Configuration\<newline>REDIS_HOST=localhost\<newline>''
     ''t'' = Inr item_email_redis"
    by (simp add: item_email_redis_def go_string_defs parse_defs)
  have s: "sections (organize item_email_redis) =
     [''Email Settings'' \<mapsto> [\<lparr>ID = [], Type = ''STRING'', Label = ''SMTP_HOST'', Value = ''smtp.gmail.com'',
                 Section = Some [''label'' \<mapsto> IString ''Email Settings'']\<rparr>],
      ''Redis Configuration'' \<mapsto> [\<lparr>ID = [], Type = ''STRING'', Label = ''REDIS_HOST'', Value = ''localhost'',
                 Section = Some [''label'' \<mapsto> IString ''Redis Configuration'']\<rparr>]]"
    by (simp add: item_email_redis_def organize_def organize_field_def sectionName_def)
  have r: "range_order (sections (organize item_email_redis)) [''Redis Configuration'', ''Email Settings'']"
    unfolding s range_order_def by auto
  have "written [''Redis Configuration'', ''Email Settings''] item_email_redis =
     ''# Redis Configuration\<newline>REDIS_HOST='' @ sq ''localhost'' @ ''\<newline>\<newline>'' @
      ''# Email Settings\<newline>SMTP_HOST='' @ sq ''smtp.gmail.com'' @ ''\<newline>\<newline>''"
    unfolding written_def Let_def s
    by (simp add: organize_def organize_field_def item_email_redis_def header_text_def ungrouped_text_def section_text_def field_line_def sq_def)
  with r have "WriteItemToEnvFile item_email_redis
     (''# Redis Configuration\<newline>REDIS_HOST='' @ sq ''localhost'' @ ''\<newline>\<newline>'' @
      ''# Email Settings\<newline>SMTP_HOST='' @ sq ''smtp.gmail.com'' @ ''\<newline>\<newline>'')"
    unfolding WriteItemToEnvFile_def by metis
  with p show ?thesis by blast
qed

subsection \<open>Parsing what was written\<close>

lemma sectionName_new_field: "sectionName (new_field k v s) = s"
  by (simp add: sectionName_def new_field_def)

lemma clean_field_section:
  "clean_field f \<Longrightarrow> sectionName f \<noteq> [] \<Longrightarrow> clean_name (sectionName f)"
  by (auto simp: clean_field_def sectionName_new_field)

lemma scan_line_clean_field:
  assumes "\<not> inHeader st" "clean_field f" "sectionName f = currentSection st"
  shows "scan_line st (field_ln f) = st\<lparr>itemFields := itemFields st @ [f]\<rparr>"
proof -
  from assms(2) obtain k v s where f: "f = new_field k v s" "key_ok k" "clean_value v"
    by (auto simp: clean_field_def)
  with assms(3) have "s = currentSection st" by (simp add: sectionName_new_field)
  with scan_line_field[OF assms(1) f(2,3), of s] f(1) show ?thesis by simp
qed

lemma foldl_fields:
  assumes "\<not> inHeader st" "\<forall>f\<in>set fs. clean_field f \<and> sectionName f = currentSection st"
  shows "foldl scan_line st (map field_ln fs) = st\<lparr>itemFields := itemFields st @ fs\<rparr>"
  using assms
proof (induction fs arbitrary: st)
  case Nil
  then show ?case by simp
next
  case (Cons f fs)
  let ?st = "st\<lparr>itemFields := itemFields st @ [f]\<rparr>"
  from Cons.prems have s: "scan_line st (field_ln f) = ?st"
    by (intro scan_line_clean_field) auto
  have "foldl scan_line ?st (map field_ln fs) = ?st\<lparr>itemFields := itemFields ?st @ fs\<rparr>"
    using Cons.prems by (intro Cons.IH) auto
  with s show ?case by simp
qed

lemma foldl_section:
  assumes "\<not> inHeader st"
    and "\<forall>f\<in>set (bucket m name). clean_field f \<and> sectionName f = name \<and> \<not> all_dashes name"
  shows "foldl scan_line st (section_ls m name) =
           (if name = [] \<or> bucket m name = [] then st
            else st\<lparr>currentSection := name, itemFields := itemFields st @ bucket m name\<rparr>)"
proof (cases "name = [] \<or> bucket m name = []")
  case True
  then show ?thesis by (auto simp: section_ls_def)
next
  case False
  then obtain f where f: "f \<in> set (bucket m name)" by (cases "bucket m name") auto
  with assms(2) False have cn: "clean_name name" "\<not> all_dashes name"
    using clean_field_section by auto
  let ?st = "st\<lparr>currentSection := name\<rparr>"
  have m: "scan_line st (''# '' @ name) = ?st"
    using assms(1) cn by (rule scan_line_marker)
  have "foldl scan_line ?st (map field_ln (bucket m name)) =
          ?st\<lparr>itemFields := itemFields ?st @ bucket m name\<rparr>"
    using assms by (intro foldl_fields) auto
  then show ?thesis
    using False m by (simp add: section_ls_def scan_line_blank del: append.simps)
qed

lemma foldl_sections:
  assumes "\<not> inHeader st"
    and "\<forall>k\<in>set ks. \<forall>f\<in>set (bucket m k). clean_field f \<and> sectionName f = k \<and> \<not> all_dashes k"
  shows "\<exists>cs. foldl scan_line st (concat (map (section_ls m) ks)) =
           st\<lparr>currentSection := cs, itemFields := itemFields st @ sect_fields m ks\<rparr>"
  using assms
proof (induction ks arbitrary: st)
  case Nil
  have "st = st\<lparr>currentSection := currentSection st, itemFields := itemFields st @ []\<rparr>" by simp
  then show ?case unfolding sect_fields_def by (metis concat.simps(1) foldl_Nil list.simps(8))
next
  case (Cons k ks)
  let ?st = "foldl scan_line st (section_ls m k)"
  have s: "?st = (if k = [] \<or> bucket m k = [] then st
            else st\<lparr>currentSection := k, itemFields := itemFields st @ bucket m k\<rparr>)"
    using Cons.prems by (intro foldl_section) auto
  then have nh: "\<not> inHeader ?st" using Cons.prems(1) by (auto split: if_splits)
  from Cons.IH[OF nh] Cons.prems(2) obtain cs where
    cs: "foldl scan_line ?st (concat (map (section_ls m) ks)) =
           ?st\<lparr>currentSection := cs, itemFields := itemFields ?st @ sect_fields m ks\<rparr>"
    by auto
  have "?st\<lparr>currentSection := cs, itemFields := itemFields ?st @ sect_fields m ks\<rparr> =
        st\<lparr>currentSection := cs, itemFields := itemFields st @ sect_fields m (k # ks)\<rparr>"
    unfolding s by (auto simp: sect_fields_def)
  with cs show ?case by (auto simp del: foldl_Cons)
qed

lemma foldl_notes:
  assumes "inHeader st" "\<forall>l\<in>set ls. hdr_ok l \<and> TrimSpace l \<noteq> []"
  shows "foldl scan_line st (map ((@) ''# '') ls) =
           st\<lparr>headerLines := headerLines st @ map ((#) (CHR '' '')) ls\<rparr>"
  using assms
proof (induction ls arbitrary: st)
  case Nil
  then show ?case by simp
next
  case (Cons l ls)
  let ?st = "st\<lparr>headerLines := headerLines st @ [CHR '' '' # l]\<rparr>"
  have s: "scan_line st (''# '' @ l) = ?st"
    using Cons.prems by (intro scan_line_note) auto
  have "foldl scan_line ?st (map ((@) ''# '') ls) =
          ?st\<lparr>headerLines := headerLines ?st @ map ((#) (CHR '' '')) ls\<rparr>"
    using Cons.prems by (intro Cons.IH) auto
  with s show ?case by (simp del: append.simps)
qed

lemma foldl_header:
  assumes "\<not> inHeader st" "\<forall>l\<in>set (Split ns). hdr_ok l"
  shows "\<exists>hl. foldl scan_line st (header_ls ns) = st\<lparr>headerLines := hl\<rparr> \<and> (ns = [] \<longrightarrow> hl = headerLines st)"
proof (cases "ns = []")
  case True
  then show ?thesis by (simp add: header_ls_def)
next
  case False
  let ?ls = "filter (\<lambda>l. TrimSpace l \<noteq> []) (Split ns)"
  let ?s1 = "st\<lparr>inHeader := True\<rparr>"
  have a: "scan_line st delimiter_line = ?s1"
    using assms(1) by (simp add: scan_line_delimiter)
  have b: "foldl scan_line ?s1 (map ((@) ''# '') ?ls) =
             ?s1\<lparr>headerLines := headerLines ?s1 @ map ((#) (CHR '' '')) ?ls\<rparr>"
    using assms(2) by (intro foldl_notes) auto
  let ?s2 = "?s1\<lparr>headerLines := headerLines ?s1 @ map ((#) (CHR '' '')) ?ls\<rparr>"
  have c: "scan_line ?s2 delimiter_line = ?s2\<lparr>inHeader := False\<rparr>"
    by (simp add: scan_line_delimiter)
  have "foldl scan_line st (header_ls ns) =
          foldl scan_line (foldl scan_line ?s1 (map ((@) ''# '') ?ls)) [delimiter_line, []]"
    using False a by (simp add: header_ls_def del: append.simps)
  also have "\<dots> = ?s2\<lparr>inHeader := False\<rparr>"
    unfolding b using c by (simp add: scan_line_blank)
  also have "\<dots> = st\<lparr>headerLines := headerLines st @ map ((#) (CHR '' '')) ?ls\<rparr>"
    using assms(1) by simp
  finally show ?thesis using False by blast
qed

lemma hdr_ok_Nil: "hdr_ok []"
  by (simp add: hdr_ok_def headerStartPattern_def)

lemma parsed_clean_item:
  assumes "ParseEnvFileToItem content t = Inr r"
    and "\<forall>f\<in>set (Fields r). \<not> all_dashes (sectionName f)"
  shows "clean_item r"
proof -
  from parse_Inr[OF assms(1)] obtain ls where ls: "Scan content = Inr ls" "r = finish t (scan_all ls)"
    by blast
  let ?st = "scan_all ls"
  have pi: "parse_inv ?st" using ls(1) by (rule parse_inv_scan)
  have si: "sect_inv ?st" by (rule sect_inv_scan_all)
  have k: "kept (Fields r) = filter (\<lambda>f. Value f \<noteq> []) (itemFields ?st)"
    unfolding ls(2) using si by (rule finish_fields(1))
  have a: "\<forall>f\<in>set (kept (Fields r)). clean_field f \<and> \<not> all_dashes (sectionName f)"
  proof
    fix f assume f: "f \<in> set (kept (Fields r))"
    then have "f \<in> set (itemFields ?st)" unfolding k by simp
    with pi have "clean_field f" by (simp add: parse_inv_def)
    moreover from f have "f \<in> set (Fields r)" by (simp add: kept_def)
    ultimately show "clean_field f \<and> \<not> all_dashes (sectionName f)" using assms(2) by blast
  qed
  have n: "notes_text (organize r) = (if headerLines ?st = [] then [] else Join (headerLines ?st))"
    unfolding ls(2) using si by (rule finish_fields(2))
  have b: "\<forall>l\<in>set (Split (notes_text (organize r))). hdr_ok l"
  proof (cases "headerLines ?st = []")
    case True
    with n show ?thesis by (simp add: hdr_ok_Nil)
  next
    case False
    from pi have h: "\<forall>l\<in>set (headerLines ?st). hdr_ok l" by (simp add: parse_inv_def)
    then have "\<forall>l\<in>set (headerLines ?st). newline \<notin> set l" by (simp add: hdr_ok_def)
    with False have "Split (Join (headerLines ?st)) = headerLines ?st" by (rule Split_Join)
    with n False h show ?thesis by simp
  qed
  from a b show ?thesis unfolding clean_item_def by blast
qed

lemma clean_bucket:
  assumes "clean_item r" "f \<in> set (bucket (sections (organize r)) k)"
  shows "clean_field f \<and> sectionName f = k \<and> \<not> all_dashes k \<and> Value f \<noteq> [] \<and> ID f = []"
proof -
  from assms(2) have f: "f \<in> set (kept (Fields r))" "sectionName f = k"
    by (auto simp: bucket_organize in_section_def)
  with assms(1) have c: "clean_field f" "\<not> all_dashes (sectionName f)"
    by (auto simp: clean_item_def)
  moreover from f(1) have "Value f \<noteq> []" by (simp add: kept_def)
  moreover from c(1) have "ID f = []" by (auto simp: clean_field_def new_field_def)
  ultimately show ?thesis using f(2) by simp
qed

lemma reparse_state:
  assumes "clean_item r"
  shows "\<exists>cs hl. scan_all (written_ls ks r) =
           \<lparr>itemFields = bucket (sections (organize r)) [] @ sect_fields (sections (organize r)) ks,
            currentSection = cs, inHeader = False, headerLines = hl\<rparr> \<and>
           (notes_text (organize r) = [] \<longrightarrow> hl = [])"
proof -
  let ?m = "sections (organize r)"
  let ?ns = "notes_text (organize r)"
  from assms have h: "\<forall>l\<in>set (Split ?ns). hdr_ok l" by (simp add: clean_item_def)
  have i: "\<not> inHeader init_state" by (simp add: init_state_def)
  from foldl_header[OF i h] obtain hl where
    hl: "foldl scan_line init_state (header_ls ?ns) = init_state\<lparr>headerLines := hl\<rparr>"
        "?ns = [] \<longrightarrow> hl = []"
    by (auto simp: init_state_def)
  let ?s1 = "init_state\<lparr>headerLines := hl\<rparr>"
  let ?s2 = "?s1\<lparr>itemFields := bucket ?m []\<rparr>"
  have u: "foldl scan_line ?s1 (ungrouped_ls ?m) = ?s2"
  proof (cases "bucket ?m [] = []")
    case True
    then show ?thesis by (simp add: ungrouped_ls_def init_state_def)
  next
    case False
    have "foldl scan_line ?s1 (map field_ln (bucket ?m [])) =
            ?s1\<lparr>itemFields := itemFields ?s1 @ bucket ?m []\<rparr>"
      using clean_bucket[OF assms] by (intro foldl_fields) (auto simp: init_state_def)
    then show ?thesis using False
      by (simp add: ungrouped_ls_def scan_line_blank init_state_def)
  qed
  have nh: "\<not> inHeader ?s2" by (simp add: init_state_def)
  have "\<forall>k\<in>set ks. \<forall>f\<in>set (bucket ?m k). clean_field f \<and> sectionName f = k \<and> \<not> all_dashes k"
    using clean_bucket[OF assms] by blast
  from foldl_sections[OF nh this] obtain cs where
    cs: "foldl scan_line ?s2 (concat (map (section_ls ?m) ks)) =
           ?s2\<lparr>currentSection := cs, itemFields := itemFields ?s2 @ sect_fields ?m ks\<rparr>"
    by blast
  have "scan_all (written_ls ks r) =
          ?s2\<lparr>currentSection := cs, itemFields := itemFields ?s2 @ sect_fields ?m ks\<rparr>"
    unfolding scan_all_def written_ls_def foldl_append hl(1) u cs ..
  then have "scan_all (written_ls ks r) =
           \<lparr>itemFields = bucket ?m [] @ sect_fields ?m ks,
            currentSection = cs, inHeader = False, headerLines = hl\<rparr>"
    by (simp add: init_state_def)
  with hl(2) show ?thesis by blast
qed

lemma line_ok_comment:
  assumes "newline \<notin> set n" "n \<noteq> []" "\<not> space_suffix n"
  shows "line_ok (''# '' @ n)"
proof -
  have "last (''# '' @ n) = last n" using assms(2) by simp
  with last_not_CR[OF assms(2,3)] have "dropCR (''# '' @ n) = ''# '' @ n"
    unfolding dropCR_def by presburger
  with assms(1) show ?thesis by (simp add: line_ok_def)
qed

lemma line_ok_Nil: "line_ok []"
  by (simp add: line_ok_def dropCR_def)

lemma line_ok_delimiter: "line_ok delimiter_line"
  by (simp add: line_ok_def dropCR_def delimiter_line_eval)

lemma line_ok_field:
  assumes "clean_field f"
  shows "line_ok (field_ln f)"
proof -
  from assms obtain k v s where f: "f = new_field k v s" "key_ok k" "clean_value v"
    by (auto simp: clean_field_def)
  have fl: "field_ln f = (k @ CHR ''='' # squote # v) @ [squote]"
    by (simp add: f(1) field_ln_def new_field_def)
  have "newline \<notin> set k" using f(2) key_char_not_newline by (auto simp: key_ok_def list_all_iff)
  moreover have "newline \<notin> set v" using f(3) by (simp add: clean_value_def)
  ultimately have "newline \<notin> set (field_ln f)" unfolding fl by simp
  moreover have "dropCR (field_ln f) = field_ln f" unfolding fl dropCR_def by simp
  ultimately show ?thesis by (simp add: line_ok_def)
qed

lemma line_ok_header:
  assumes "\<forall>l\<in>set (Split ns). hdr_ok l"
  shows "\<forall>l\<in>set (header_ls ns). line_ok l"
proof
  fix l assume "l \<in> set (header_ls ns)"
  then consider "l = delimiter_line" | "l = []"
    | x where "x \<in> set (Split ns)" "TrimSpace x \<noteq> []" "l = ''# '' @ x"
    by (auto simp: header_ls_def split: if_splits)
  then show "line_ok l"
  proof cases
    case 1
    then show ?thesis by (simp add: line_ok_delimiter)
  next
    case 2
    then show ?thesis by (simp add: line_ok_Nil)
  next
    case 3
    from 3(2) have xn: "x \<noteq> []"
      by (auto simp: TrimSpace_def TrimLeftSpace_def TrimRightSpace_def)
    with assms 3(1) have "newline \<notin> set x" "\<not> space_suffix x" by (auto simp: hdr_ok_def)
    with xn show ?thesis unfolding 3(3) by (intro line_ok_comment)
  qed
qed

lemma line_ok_written:
  assumes "clean_item r"
  shows "\<forall>l\<in>set (written_ls ks r). line_ok l"
proof -
  let ?m = "sections (organize r)"
  have h: "\<forall>l\<in>set (header_ls (notes_text (organize r))). line_ok l"
    using assms by (intro line_ok_header) (simp add: clean_item_def)
  have f: "line_ok (field_ln g)" if "g \<in> set (bucket ?m k)" for g k
    using clean_bucket[OF assms that] by (simp add: line_ok_field)
  have u: "\<forall>l\<in>set (ungrouped_ls ?m). line_ok l"
    using f by (auto simp: ungrouped_ls_def line_ok_Nil split: if_splits)
  have s: "\<forall>l\<in>set (section_ls ?m k). line_ok l" for k
  proof (cases "k = [] \<or> bucket ?m k = []")
    case True
    then show ?thesis by (auto simp: section_ls_def)
  next
    case False
    then obtain g where g: "g \<in> set (bucket ?m k)" by (cases "bucket ?m k") auto
    from clean_bucket[OF assms g] False have "clean_name k" using clean_field_section by auto
    then have "line_ok (''# '' @ k)" by (intro line_ok_comment) (auto simp: clean_name_def)
    with f False show ?thesis by (auto simp: section_ls_def line_ok_Nil simp del: append.simps)
  qed
  from h u s show ?thesis by (auto simp: written_ls_def)
qed

lemma Scan_written:
  assumes "clean_item r" "\<forall>l\<in>set (raw_lines (written ks r)). length l < MaxScanTokenSize"
  shows "Scan (written ks r) = Inr (written_ls ks r)"
proof -
  from line_ok_written[OF assms(1)] have ok: "\<forall>l\<in>set (written_ls ks r). line_ok l" .
  then have "raw_lines (written ks r) = written_ls ks r"
    unfolding written_unlines by (intro raw_lines_unlines) (simp add: line_ok_def)
  moreover have "map dropCR (written_ls ks r) = written_ls ks r"
    using ok by (simp add: line_ok_def map_idI)
  ultimately show ?thesis using assms(2) by (auto simp: Scan_def list_ex_iff)
qed

lemma set_sect_fields:
  "set (sect_fields m ks) = (\<Union>k\<in>set ks - {[]}. set (bucket m k))"
  by (auto simp: sect_fields_def split: if_splits)

lemma set_reparsed:
  assumes "range_order (sections (organize r)) ks"
  shows "set (bucket (sections (organize r)) [] @ sect_fields (sections (organize r)) ks) =
         set (kept (Fields r))"
proof -
  let ?G = "kept (Fields r)"
  have b: "set (bucket (sections (organize r)) k) = {f \<in> set ?G. sectionName f = k}" for k
    by (auto simp: bucket_organize in_section_def)
  from assms have ks: "set ks = sectionName ` set ?G"
    by (simp add: range_order_def dom_sections_organize)
  show ?thesis
    unfolding set_append set_sect_fields b ks by auto
qed

lemma in_section_twice:
  "in_section k (in_section k' G) = (if k = k' then in_section k G else [])"
  by (induction G) (auto simp: in_section_def)

lemma in_section_concat:
  assumes "distinct ks"
  shows "in_section k (concat (map (\<lambda>k'. if k' = [] then [] else in_section k' G) ks)) =
           (if k \<noteq> [] \<and> k \<in> set ks then in_section k G else [])"
  using assms
proof (induction ks)
  case Nil
  then show ?case by (simp add: in_section_def)
next
  case (Cons a ks)
  have ap: "in_section j (xs @ ys) = in_section j xs @ in_section j ys" for j xs ys
    by (simp add: in_section_def)
  have e: "in_section j [] = []" for j by (simp add: in_section_def)
  from Cons show ?case
    by (auto simp: ap e in_section_twice)
qed

lemma in_section_reparsed:
  assumes "range_order (sections (organize r)) ks"
  shows "in_section k (bucket (sections (organize r)) [] @ sect_fields (sections (organize r)) ks) =
         in_section k (kept (Fields r))"
proof -
  let ?G = "kept (Fields r)"
  have bf: "bucket (sections (organize r)) = (\<lambda>k. in_section k ?G)"
    by (rule ext) (rule bucket_organize)
  from assms have ks: "distinct ks" "set ks = sectionName ` set ?G"
    by (simp_all add: range_order_def dom_sections_organize)
  have out: "in_section k ?G = []" if "k \<notin> set ks"
    using that ks(2) by (auto simp: in_section_def filter_empty_conv)
  have "in_section k (in_section [] ?G @ concat (map (\<lambda>k'. if k' = [] then [] else in_section k' ?G) ks)) =
        (if k = [] then in_section k ?G else []) @
        (if k \<noteq> [] \<and> k \<in> set ks then in_section k ?G else [])"
    using in_section_concat[OF ks(1), of k ?G]
    by (simp add: in_section_def[of k "_ @ _"] in_section_twice) (simp add: in_section_def)
  also have "\<dots> = in_section k ?G" using out by auto
  finally show ?thesis unfolding sect_fields_def bf .
qed

lemma reparse:
  assumes "clean_item r" "\<forall>l\<in>set (raw_lines (written ks r)). length l < MaxScanTokenSize"
  shows "\<exists>cs hl. ParseEnvFileToItem (written ks r) t =
            Inr (finish t \<lparr>itemFields = bucket (sections (organize r)) [] @
                                        sect_fields (sections (organize r)) ks,
                           currentSection = cs, inHeader = False, headerLines = hl\<rparr>) \<and>
            (notes_text (organize r) = [] \<longrightarrow> hl = []) \<and>
            sect_inv \<lparr>itemFields = bucket (sections (organize r)) [] @
                                        sect_fields (sections (organize r)) ks,
                           currentSection = cs, inHeader = False, headerLines = hl\<rparr>"
proof -
  from reparse_state[OF assms(1), of ks] obtain cs hl where
    st: "scan_all (written_ls ks r) =
           \<lparr>itemFields = bucket (sections (organize r)) [] @ sect_fields (sections (organize r)) ks,
            currentSection = cs, inHeader = False, headerLines = hl\<rparr>"
        "notes_text (organize r) = [] \<longrightarrow> hl = []"
    by blast
  have "ParseEnvFileToItem (written ks r) t = Inr (finish t (scan_all (written_ls ks r)))"
    by (simp add: ParseEnvFileToItem_def Scan_written[OF assms])
  moreover have "sect_inv (scan_all (written_ls ks r))" by (rule sect_inv_scan_all)
  ultimately show ?thesis using st by auto
qed

subsection \<open>The round trip\<close>

text \<open>
  Claim C2 as stated fails on the text \<^verbatim>\<open>A=\<close>: it parses to the field \<^verbatim>\<open>A\<close> with the empty
  value, the section map of that record is empty, so the empty text is all that is
  written, and the empty text parses to no field at all.
\<close>

theorem roundtrip_counterexample:
  "ParseEnvFileToItem ''A=\<newline>'' ''t'' = Inr (plain_item [plain_field ''A'' []]) \<and>
   sections (organize (plain_item [plain_field ''A'' []])) = Map.empty \<and>
   WriteItemToEnvFile (plain_item [plain_field ''A'' []]) [] \<and>
   ParseEnvFileToItem [] ''t'' = Inr (plain_item [])"
proof -
  have a: "ParseEnvFileToItem ''A=\<newline>'' ''t'' = Inr (plain_item [plain_field ''A'' []])"
    by (simp add: plain_item_def plain_field_def go_string_defs parse_defs)
  have s: "sections (organize (plain_item [plain_field ''A'' []])) = Map.empty"
    by (simp add: plain_item_def plain_field_def organize_def organize_field_def)
  have "written [] (plain_item [plain_field ''A'' []]) = []"
    by (simp add: plain_item_def plain_field_def write_defs)
  then have w: "WriteItemToEnvFile (plain_item [plain_field ''A'' []]) []"
    unfolding WriteItemToEnvFile_def s range_order_def by auto
  have b: "ParseEnvFileToItem [] ''t'' = Inr (plain_item [])"
    by (simp add: plain_item_def go_string_defs parse_defs)
  from a s w b show ?thesis by blast
qed

text \<open>
  Why the section labels of dashes are set apart: after \<^verbatim>\<open>#\<close>, a vertical tab is no
  white space for the regular expressions but is trimmed from the section name, so that
  the name can be \<^verbatim>\<open>---\<close>; the marker that is written for it is a header delimiter, and
  the variable after it is lost in the header.
\<close>

lemma dash_section_swallowed:
  "ParseEnvFileToItem (''#'' @ [CHR 0x0B] @ ''---\<newline>A=1\<newline>'') ''t'' =
     Inr (plain_item [sect_field ''STRING'' ''A'' ''1'' ''---'']) \<and>
   written [''---''] (plain_item [sect_field ''STRING'' ''A'' ''1'' ''---'']) =
     ''# ---\<newline>A='' @ sq ''1'' @ ''\<newline>\<newline>'' \<and>
   ParseEnvFileToItem (''# ---\<newline>A='' @ sq ''1'' @ ''\<newline>\<newline>'') ''t'' = Inr (plain_item [])"
  by (simp add: plain_item_def sect_field_def sq_def go_string_defs parse_defs write_defs)

text \<open>
  Claim C2, amended. Let a text parse to a record, let \<open>WriteItemToEnvFile\<close> write the
  record (in any iteration order of the section map), let no section label of the record
  consist of dashes only, and let every line that was written be shorter than 64 KiB.
  Then parsing what was written returns a record, and its fields other than the notes
  field are, as a set of tuples of name, type, value and section, the fields of the
  first record other than the notes field whose value is not empty.
\<close>

theorem roundtrip_fields:
  assumes "ParseEnvFileToItem content t = Inr r"
    and "WriteItemToEnvFile r out"
    and "\<forall>f\<in>set (Fields r). \<not> all_dashes (sectionName f)"
    and "\<forall>l\<in>set (raw_lines out). length l < MaxScanTokenSize"
  shows "\<exists>r2. ParseEnvFileToItem out t = Inr r2 \<and>
           field_tuple ` {f \<in> set (Fields r2). ID f \<noteq> ''notesPlain''} =
           field_tuple ` {f \<in> set (Fields r). ID f \<noteq> ''notesPlain'' \<and> Value f \<noteq> []}"
proof -
  from assms(2) obtain ks where ks: "range_order (sections (organize r)) ks" "out = written ks r"
    by (auto simp: WriteItemToEnvFile_def)
  have c: "clean_item r" using assms(1,3) by (rule parsed_clean_item)
  let ?fs = "bucket (sections (organize r)) [] @ sect_fields (sections (organize r)) ks"
  from reparse[OF c, of ks t] assms(4) ks(2) obtain cs hl where
    p: "ParseEnvFileToItem out t =
          Inr (finish t \<lparr>itemFields = ?fs, currentSection = cs, inHeader = False, headerLines = hl\<rparr>)"
    and si: "sect_inv \<lparr>itemFields = ?fs, currentSection = cs, inHeader = False, headerLines = hl\<rparr>"
    by auto
  let ?r2 = "finish t \<lparr>itemFields = ?fs, currentSection = cs, inHeader = False, headerLines = hl\<rparr>"
  from si have ids: "\<forall>f\<in>set ?fs. ID f = []" by (simp add: sect_inv_def)
  have "{f \<in> set (Fields ?r2). ID f \<noteq> ''notesPlain''} = set ?fs"
    using ids by (auto simp: finish_def notesField_def)
  also have "\<dots> = set (kept (Fields r))" using ks(1) by (rule set_reparsed)
  also have "\<dots> = {f \<in> set (Fields r). ID f \<noteq> ''notesPlain'' \<and> Value f \<noteq> []}"
    by (auto simp: kept_def)
  finally have "field_tuple ` {f \<in> set (Fields ?r2). ID f \<noteq> ''notesPlain''} =
           field_tuple ` {f \<in> set (Fields r). ID f \<noteq> ''notesPlain'' \<and> Value f \<noteq> []}"
    by simp
  with p show ?thesis by blast
qed

lemma rt_parse: "ParseEnvFileToItem rt_text ''t'' = Inr rt_item"
  by (simp add: rt_text_def rt_item_def plain_item_def plain_field_def sect_field_def
      go_string_defs parse_defs)

lemma rt_sections:
  "sections (organize rt_item) =
     [[] \<mapsto> [plain_field ''B'' ''x''], ''S'' \<mapsto> [sect_field ''CONCEALED'' ''C_KEY'' ''y'' ''S'']]"
  by (simp add: rt_item_def plain_item_def plain_field_def sect_field_def notesField_def
      organize_def organize_field_def sectionName_def)

lemma rt_order: "range_order (sections (organize rt_item)) [''S'', []]"
  unfolding rt_sections range_order_def by auto

lemma rt_written: "written [''S'', []] rt_item = rt_out"
  unfolding written_def Let_def rt_sections
  by (simp add: rt_item_def rt_out_def plain_item_def plain_field_def sect_field_def notesField_def
      organize_def organize_field_def sectionName_def header_text_def ungrouped_text_def
      section_text_def field_line_def delimiter_line_eval sq_def go_string_defs)

lemma rt_write: "WriteItemToEnvFile rt_item rt_out"
  unfolding WriteItemToEnvFile_def using rt_order rt_written by metis

lemma rt_raw_lines:
  "raw_lines rt_out =
     [''# --------------------------------------------'', ''#  n'',
      ''# --------------------------------------------'', [], ''B='' @ sq ''x'', [],
      ''# S'', ''C_KEY='' @ sq ''y'', []]"
  by (simp add: rt_out_def sq_def go_string_defs)

lemma rt_no_dashes: "\<forall>f\<in>set (Fields rt_item). \<not> all_dashes (sectionName f)"
  by (simp add: rt_item_def plain_item_def plain_field_def sect_field_def notesField_def
      sectionName_def all_dashes_def)

text \<open>
  The theorem of claim C2 on a text with a header block, an empty value, an ungrouped
  variable and a quoted variable in a section.
\<close>

theorem roundtrip_fields_witness:
  "ParseEnvFileToItem rt_text ''t'' = Inr rt_item \<and> WriteItemToEnvFile rt_item rt_out \<and>
   (\<exists>r2. ParseEnvFileToItem rt_out ''t'' = Inr r2 \<and>
      field_tuple ` {f \<in> set (Fields r2). ID f \<noteq> ''notesPlain''} =
      field_tuple ` {f \<in> set (Fields rt_item). ID f \<noteq> ''notesPlain'' \<and> Value f \<noteq> []})"
proof -
  have short: "\<forall>l\<in>set (raw_lines rt_out). length l < MaxScanTokenSize"
    unfolding rt_raw_lines by (simp add: MaxScanTokenSize_def sq_def)
  from roundtrip_fields[OF rt_parse rt_write rt_no_dashes short] rt_parse rt_write
  show ?thesis by blast
qed

subsection \<open>Writing, parsing and writing again\<close>

text \<open>
  Claim C3 as stated fails on the record with the one field \<^verbatim>\<open>A\<close> of value \<^verbatim>\<open>"x"\<close> (the
  double quotes are part of the value): it is written as \<^verbatim>\<open>A='"x"'\<close>, parsed back with
  the value \<^verbatim>\<open>x\<close>, and that record is never written as the same text.
\<close>

theorem reserialize_counterexample:
  "WriteItemToEnvFile (plain_item [plain_field ''A'' ''\"x\"'']) (''A='' @ sq ''\"x\"'' @ ''\<newline>\<newline>'') \<and>
   ParseEnvFileToItem (''A='' @ sq ''\"x\"'' @ ''\<newline>\<newline>'') ''t'' =
     Inr (plain_item [plain_field ''A'' ''x'']) \<and>
   \<not> WriteItemToEnvFile (plain_item [plain_field ''A'' ''x'']) (''A='' @ sq ''\"x\"'' @ ''\<newline>\<newline>'')"
proof -
  have s0: "sections (organize (plain_item [plain_field ''A'' ''\"x\"''])) = [[] \<mapsto> [plain_field ''A'' ''\"x\"'']]"
    by (simp add: plain_item_def plain_field_def organize_def organize_field_def sectionName_def)
  have w0: "written [[]] (plain_item [plain_field ''A'' ''\"x\"'']) = ''A='' @ sq ''\"x\"'' @ ''\<newline>\<newline>''"
    by (simp add: plain_item_def plain_field_def write_defs sq_def)
  have a: "WriteItemToEnvFile (plain_item [plain_field ''A'' ''\"x\"'']) (''A='' @ sq ''\"x\"'' @ ''\<newline>\<newline>'')"
    unfolding WriteItemToEnvFile_def s0 range_order_single using w0 by simp
  have b: "ParseEnvFileToItem (''A='' @ sq ''\"x\"'' @ ''\<newline>\<newline>'') ''t'' =
     Inr (plain_item [plain_field ''A'' ''x''])"
    by (simp add: plain_item_def plain_field_def sq_def go_string_defs parse_defs)
  have s1: "sections (organize (plain_item [plain_field ''A'' ''x''])) = [[] \<mapsto> [plain_field ''A'' ''x'']]"
    by (simp add: plain_item_def plain_field_def organize_def organize_field_def sectionName_def)
  have w1: "written [[]] (plain_item [plain_field ''A'' ''x'']) \<noteq> ''A='' @ sq ''\"x\"'' @ ''\<newline>\<newline>''"
    by (simp add: plain_item_def plain_field_def write_defs sq_def)
  have c: "\<not> WriteItemToEnvFile (plain_item [plain_field ''A'' ''x'']) (''A='' @ sq ''\"x\"'' @ ''\<newline>\<newline>'')"
    unfolding WriteItemToEnvFile_def s1 range_order_single using w1 by auto
  from a b c show ?thesis by blast
qed

text \<open>
  Claim C3, amended. Let a text without collected header lines parse to a record without
  a section label of dashes only, let \<open>ks\<close> be an order in which \<^verbatim>\<open>range\<close> can visit the
  section map of the record, and let every line written in that order be shorter than
  64 KiB. Then parsing what was written returns a record whose section map can be
  visited in the same order, and writing it in that order gives the same text, byte for
  byte.
\<close>

theorem reserialize_same_order:
  assumes "ParseEnvFileToItem content t = Inr r"
    and "collected_header_lines content = []"
    and "\<forall>f\<in>set (Fields r). \<not> all_dashes (sectionName f)"
    and "range_order (sections (organize r)) ks"
    and "\<forall>l\<in>set (raw_lines (written ks r)). length l < MaxScanTokenSize"
  shows "\<exists>r2. ParseEnvFileToItem (written ks r) t = Inr r2 \<and>
           range_order (sections (organize r2)) ks \<and> written ks r2 = written ks r"
proof -
  have c: "clean_item r" using assms(1,3) by (rule parsed_clean_item)
  from parse_Inr[OF assms(1)] obtain ls where ls: "Scan content = Inr ls" "r = finish t (scan_all ls)"
    by blast
  from assms(2) ls(1) have "headerLines (scan_all ls) = []" by (simp add: collected_header_lines_def)
  then have n: "notes_text (organize r) = []"
    unfolding ls(2) using finish_fields(2)[OF sect_inv_scan_all] by simp
  let ?fs = "bucket (sections (organize r)) [] @ sect_fields (sections (organize r)) ks"
  from reparse[OF c assms(5), of t] n obtain cs where
    p: "ParseEnvFileToItem (written ks r) t =
          Inr (finish t \<lparr>itemFields = ?fs, currentSection = cs, inHeader = False, headerLines = []\<rparr>)"
    and si: "sect_inv \<lparr>itemFields = ?fs, currentSection = cs, inHeader = False, headerLines = []\<rparr>"
    by auto
  let ?st2 = "\<lparr>itemFields = ?fs, currentSection = cs, inHeader = False, headerLines = []\<rparr>"
  let ?r2 = "finish t ?st2"
  have vals: "\<forall>f\<in>set ?fs. Value f \<noteq> []"
    unfolding set_reparsed[OF assms(4)] by (simp add: kept_def)
  have "kept (Fields ?r2) = filter (\<lambda>f. Value f \<noteq> []) ?fs"
    using finish_fields(1)[OF si] by simp
  also have "\<dots> = ?fs" using vals by (simp add: filter_id_conv)
  finally have k2: "kept (Fields ?r2) = ?fs" .
  have n2: "notes_text (organize ?r2) = []"
    using finish_fields(2)[OF si] by simp
  have s2: "sections (organize ?r2) = sections (organize r)"
  proof (rule ext)
    fix k
    show "sections (organize ?r2) k = sections (organize r) k"
      unfolding sections_organize k2 in_section_reparsed[OF assms(4)] ..
  qed
  have "written ks ?r2 = written ks r"
    by (simp add: written_def Let_def s2 n n2)
  with p s2 assms(4) show ?thesis by auto
qed

lemma rs_sections:
  "sections (organize sample_item2) =
     [[] \<mapsto> [plain_field ''A'' ''1''], ''S'' \<mapsto> [sect_field ''STRING'' ''B'' ''2'' ''S'']]"
  by (simp add: sample_item2_def plain_field_def sect_field_def
      organize_def organize_field_def sectionName_def)

lemma rs_order: "range_order (sections (organize sample_item2)) [''S'', []]"
  unfolding rs_sections range_order_def by auto

lemma rs_written: "written [''S'', []] sample_item2 = rs_out"
  unfolding written_def Let_def rs_sections
  by (simp add: sample_item2_def rs_out_def plain_field_def sect_field_def
      organize_def organize_field_def sectionName_def header_text_def ungrouped_text_def
      section_text_def field_line_def sq_def)

text \<open>The theorem of claim C3 on a text with an ungrouped and a grouped variable.\<close>

theorem reserialize_same_order_witness:
  "ParseEnvFileToItem sample_text2 ''t'' = Inr sample_item2 \<and>
   collected_header_lines sample_text2 = [] \<and>
   range_order (sections (organize sample_item2)) [''S'', []] \<and>
   written [''S'', []] sample_item2 = rs_out \<and>
   (\<exists>r2. ParseEnvFileToItem rs_out ''t'' = Inr r2 \<and>
      range_order (sections (organize r2)) [''S'', []] \<and> written [''S'', []] r2 = rs_out)"
proof -
  have h: "collected_header_lines sample_text2 = []"
    by (simp add: collected_header_lines_def sample_text2_def go_string_defs parse_defs)
  have nd: "\<forall>f\<in>set (Fields sample_item2). \<not> all_dashes (sectionName f)"
    by (simp add: sample_item2_def sectionName_def all_dashes_def)
  have "raw_lines rs_out = [''A='' @ sq ''1'', [], ''# S'', ''B='' @ sq ''2'', []]"
    by (simp add: rs_out_def sq_def go_string_defs)
  then have short: "\<forall>l\<in>set (raw_lines (written [''S'', []] sample_item2)). length l < MaxScanTokenSize"
    unfolding rs_written by (simp add: MaxScanTokenSize_def sq_def)
  from reserialize_same_order[OF parse_sample2 h nd rs_order short] parse_sample2 h rs_order rs_written
  show ?thesis by simp
qed

end
